theory Spec2Isabelle
  imports Main
begin

section \<open>Calendar dates (Python's \<open>datetime\<close>)\<close>

text \<open>
  The repository computes with \<open>datetime.date\<close> values, and with \<open>datetime.datetime\<close>
  values whose time of day is always midnight (\<open>rrule\<close> turns the \<open>date\<close> it is given as
  \<open>dtstart\<close> into such a value).  Both are modelled by their year, month and day.  The
  functions below follow the pure Python implementation of the standard library:
  \<open>_is_leap\<close>, \<open>_days_before_year\<close>, \<open>_days_in_month\<close>, \<open>_days_before_month\<close>,
  \<open>_ymd2ord\<close> and \<open>_ord2ymd\<close>.  Python's \<open>//\<close> and \<open>%\<close> on integers round towards
  minus infinity, as \<open>div\<close> and \<open>mod\<close> on \<open>int\<close> do.
\<close>

datatype date = Date (year: int) (month: int) (day: int)

definition DAYS_IN_MONTH :: "int list" where
  "DAYS_IN_MONTH = [-1, 31, 28, 31, 30, 31, 30, 31, 31, 30, 31, 30, 31]"

definition DAYS_BEFORE_MONTH :: "int list" where
  "DAYS_BEFORE_MONTH = [-1, 0, 31, 59, 90, 120, 151, 181, 212, 243, 273, 304, 334]"

definition is_leap :: "int \<Rightarrow> bool" where
  "is_leap y = (y mod 4 = 0 \<and> (y mod 100 \<noteq> 0 \<or> y mod 400 = 0))"

definition days_before_year :: "int \<Rightarrow> int" where
  "days_before_year yr = (let y = yr - 1 in y * 365 + y div 4 - y div 100 + y div 400)"

definition days_in_month :: "int \<Rightarrow> int \<Rightarrow> int" where
  "days_in_month y m = (if m = 2 \<and> is_leap y then 29 else DAYS_IN_MONTH ! nat m)"

definition days_before_month :: "int \<Rightarrow> int \<Rightarrow> int" where
  "days_before_month y m =
     DAYS_BEFORE_MONTH ! nat m + (if m > 2 \<and> is_leap y then 1 else 0)"

definition ymd2ord :: "int \<Rightarrow> int \<Rightarrow> int \<Rightarrow> int" where
  "ymd2ord y m d = days_before_year y + days_before_month y m + d"

definition DI400Y :: int where "DI400Y = 146097"

definition DI100Y :: int where "DI100Y = 36524"

definition DI4Y :: int where "DI4Y = 1461"

text \<open>
  The second half of \<open>_ord2ymd\<close>: month and day of the \<open>n\<close>-th day (from 0) of a year,
  from the estimate \<open>(n + 50) >> 5\<close>, which is exact or one too large.
\<close>

definition month_day :: "bool \<Rightarrow> int \<Rightarrow> int \<times> int" where
  "month_day leapyear n =
     (let month = (n + 50) div 32;
          preceding = DAYS_BEFORE_MONTH ! nat month + (if month > 2 \<and> leapyear then 1 else 0);
          (month, preceding) =
            (if preceding > n
             then (month - 1,
                   preceding - (DAYS_IN_MONTH ! nat (month - 1)
                                + (if month - 1 = 2 \<and> leapyear then 1 else 0)))
             else (month, preceding))
      in (month, n - preceding + 1))"

definition ord2ymd :: "int \<Rightarrow> int \<times> int \<times> int" where
  "ord2ymd n0 =
     (let n = n0 - 1;
          n400 = n div DI400Y; n = n mod DI400Y;
          yr = n400 * 400 + 1;
          n100 = n div DI100Y; n = n mod DI100Y;
          n4 = n div DI4Y; n = n mod DI4Y;
          n1 = n div 365; n = n mod 365;
          yr = yr + (n100 * 100 + n4 * 4 + n1)
      in if n1 = 4 \<or> n100 = 4 then (yr - 1, 12, 31)
         else let leapyear = (n1 = 3 \<and> (n4 \<noteq> 24 \<or> n100 = 3));
                  (m, d) = month_day leapyear n
              in (yr, m, d))"

section \<open>Recurrence rules (\<open>dateutil.rrule\<close>)\<close>

text \<open>
  The tables of \<open>dateutil.rrule\<close>: for each day of a year (and seven days more) its month
  and its day of the month, the first day of each month, and the weekdays of 55 weeks.
  The tables of a common year are those of a leap year with entry 59 deleted.
\<close>

definition M366MASK :: "int list" where
  "M366MASK = replicate 31 1 @ replicate 29 2 @ replicate 31 3 @ replicate 30 4
     @ replicate 31 5 @ replicate 30 6 @ replicate 31 7 @ replicate 31 8
     @ replicate 30 9 @ replicate 31 10 @ replicate 30 11 @ replicate 31 12
     @ replicate 7 1"

definition del :: "'a list \<Rightarrow> nat \<Rightarrow> 'a list" where
  "del xs k = take k xs @ drop (Suc k) xs"

definition M365MASK :: "int list" where
  "M365MASK = del M366MASK 59"

definition MDAY366MASK :: "int list" where
  "MDAY366MASK =
     (let M29 = [1..29]; M30 = [1..30]; M31 = [1..31]
      in M31 @ M29 @ M31 @ M30 @ M31 @ M30 @ M31 @ M31 @ M30 @ M31 @ M30 @ M31 @ take 7 M31)"

definition MDAY365MASK :: "int list" where
  "MDAY365MASK = del MDAY366MASK 59"

definition M366RANGE :: "int list" where
  "M366RANGE = [0, 31, 60, 91, 121, 152, 182, 213, 244, 274, 305, 335, 366]"

definition M365RANGE :: "int list" where
  "M365RANGE = [0, 31, 59, 90, 120, 151, 181, 212, 243, 273, 304, 334, 365]"

definition WDAYMASK :: "int list" where
  "WDAYMASK = concat (replicate 55 [0, 1, 2, 3, 4, 5, 6])"

text \<open>For the proofs: the tables of a year by its leap status.\<close>

definition mrange_of :: "bool \<Rightarrow> int list" where
  "mrange_of lp = (if lp then M366RANGE else M365RANGE)"

text \<open>
  Exceptions are values: a computation that may raise returns \<open>error + 'a\<close>, with \<open>Inl\<close>
  for the exception.  \<open>ValueError\<close> carries its message.
\<close>

datatype error = ValueError string | KeyError | NameError | TypeError | AssertionError
  | OverflowError | StopIteration | IndexError

definition rbind :: "error + 'a \<Rightarrow> ('a \<Rightarrow> error + 'b) \<Rightarrow> error + 'b" where
  "rbind m f = (case m of Inl e \<Rightarrow> Inl e | Inr x \<Rightarrow> f x)"

definition MINYEAR :: int where "MINYEAR = 1"

definition MAXYEAR :: int where "MAXYEAR = 9999"

definition MAXORDINAL :: int where "MAXORDINAL = 3652059"

text \<open>
  \<open>date.toordinal\<close>, \<open>date.fromordinal\<close> (applied by the code below only to ordinals
  of representable dates), \<open>date.weekday\<close> (Monday is 0) and the comparison of dates,
  which Python does on the triples (year, month, day).
\<close>

definition toordinal :: "date \<Rightarrow> int" where
  "toordinal dt = ymd2ord (year dt) (month dt) (day dt)"

definition fromordinal :: "int \<Rightarrow> date" where
  "fromordinal n = (case ord2ymd n of (y, m, d) \<Rightarrow> Date y m d)"

definition weekday :: "date \<Rightarrow> int" where
  "weekday dt = (toordinal dt + 6) mod 7"

definition date_le :: "date \<Rightarrow> date \<Rightarrow> bool" where
  "date_le a b = (year a < year b \<or> (year a = year b \<and>
       (month a < month b \<or> (month a = month b \<and> day a \<le> day b))))"

definition date_less :: "date \<Rightarrow> date \<Rightarrow> bool" where
  "date_less a b = (year a < year b \<or> (year a = year b \<and>
       (month a < month b \<or> (month a = month b \<and> day a < day b))))"

definition isleap :: "int \<Rightarrow> bool" where
  "isleap y = (y mod 4 = 0 \<and> (y mod 100 \<noteq> 0 \<or> y mod 400 = 0))"

text \<open>
  An \<open>rrule\<close> object of frequency \<open>YEARLY\<close> and interval 1, the only kind the repository
  builds: the start, the optional count and end bounds, and the filters \<open>bymonth\<close>,
  \<open>bymonthday\<close> (a positive day) and \<open>bynweekday\<close> (a weekday with its ordinal \<open>n\<close>).
  \<open>iterinfo\<close> holds what \<open>_iterinfo.rebuild\<close> computes for one year.
\<close>

record rrule =
  rr_dtstart :: date
  rr_count :: "int option"
  rr_until :: "date option"
  rr_bymonth :: "int option"
  rr_bymonthday :: "int option"
  rr_bynweekday :: "(int \<times> int) option"

record iterinfo =
  yearlen :: int
  yearordinal :: int
  yearweekday :: int
  mmask :: "int list"
  mdaymask :: "int list"
  wdaymask :: "int list"
  mrange :: "int list"
  nwdaymask :: "int list option"

text \<open>
  Indexing a Python list: a negative index counts from the end.  The model is meant for
  indices within the list, which is the case for every rule of the repository (months
  1 to 12, weekday ordinals between -4 and 4).
\<close>

definition getitem :: "'a list \<Rightarrow> int \<Rightarrow> 'a" where
  "getitem xs i = xs ! nat (if i < 0 then int (length xs) + i else i)"

text \<open>
  \<open>rebuild\<close>: the year's length, the ordinal and weekday of 1 January, the masks, and for
  an \<open>n\<close>-th weekday rule the mask \<open>nwdaymask\<close> with a 1 at the position of the \<open>n\<close>-th such
  weekday of the month (counted from the end of the month when \<open>n\<close> is negative), if that
  position lies in the month.
\<close>

definition nwday_pos :: "int list \<Rightarrow> int \<Rightarrow> int \<Rightarrow> int \<Rightarrow> int \<Rightarrow> int" where
  "nwday_pos wdm first lst wd n =
     (if n < 0
      then (let i = lst + (n + 1) * 7 in i - (getitem wdm i - wd) mod 7)
      else (let i = first + (n - 1) * 7 in i + (7 - getitem wdm i + wd) mod 7))"

definition mark_nwday :: "int list \<Rightarrow> int \<Rightarrow> int \<Rightarrow> int \<times> int \<Rightarrow> int list \<Rightarrow> int list" where
  "mark_nwday wdm wd n rng msk =
     (case rng of (first, lst0) \<Rightarrow>
        (let lst = lst0 - 1;
             i = nwday_pos wdm first lst wd n
         in if first \<le> i \<and> i \<le> lst then msk[nat i := 1] else msk))"

definition rebuild :: "rrule \<Rightarrow> int \<Rightarrow> iterinfo" where
  "rebuild rr yr =
     (let ylen = 365 + (if isleap yr then 1 else 0);
          firstyday = Date yr 1 1;
          yordinal = toordinal firstyday;
          wday = weekday (Date yr 1 1);
          mm = (if ylen = 365 then M365MASK else M366MASK);
          mdm = (if ylen = 365 then MDAY365MASK else MDAY366MASK);
          wdm = drop (nat wday) WDAYMASK;
          mr = (if ylen = 365 then M365RANGE else M366RANGE);
          nwd = (case rr_bynweekday rr of
                   None \<Rightarrow> None
                 | Some (wd, n) \<Rightarrow>
                     (let ranges = (case rr_bymonth rr of
                                      Some mth \<Rightarrow> [(getitem mr (mth - 1), getitem mr mth)]
                                    | None \<Rightarrow> [(0, ylen)])
                      in Some (fold (mark_nwday wdm wd n) ranges (replicate (nat ylen) 0))))
      in \<lparr>yearlen = ylen, yearordinal = yordinal, yearweekday = weekday firstyday,
          mmask = mm, mdaymask = mdm, wdaymask = wdm, mrange = mr, nwdaymask = nwd\<rparr>)"

text \<open>
  One pass of \<open>rrule._iter\<close> over a year: the days of the year that no filter removes,
  as dates.
\<close>

definition filtered :: "rrule \<Rightarrow> iterinfo \<Rightarrow> int \<Rightarrow> bool" where
  "filtered rr ii i =
     ((case rr_bymonth rr of Some mth \<Rightarrow> getitem (mmask ii) i \<noteq> mth | None \<Rightarrow> False)
      \<or> (case nwdaymask ii of Some msk \<Rightarrow> getitem msk i = 0 | None \<Rightarrow> False)
      \<or> (case rr_bymonthday rr of Some md \<Rightarrow> getitem (mdaymask ii) i \<noteq> md | None \<Rightarrow> False))"

definition year_results :: "rrule \<Rightarrow> int \<Rightarrow> date list" where
  "year_results rr yr =
     (let ii = rebuild rr yr
      in map (\<lambda>i. fromordinal (yearordinal ii + i))
           (filter (\<lambda>i. \<not> filtered rr ii i) [0..yearlen ii - 1]))"

text \<open>
  For the proofs: the position \<open>rebuild\<close> marks, written with the weekday of 1 January.
\<close>

definition nth_wday_index :: "int \<Rightarrow> int \<Rightarrow> int \<Rightarrow> int \<Rightarrow> int \<Rightarrow> int" where
  "nth_wday_index first lst w0 wd n =
     (if n < 0 then (let i = lst + (n + 1) * 7 in i - ((w0 + i) mod 7 - wd) mod 7)
      else (let i = first + (n - 1) * 7 in i + (7 - (w0 + i) mod 7 + wd) mod 7))"

text \<open>For the proofs: the masks of a year by its leap status.\<close>

definition mmask_of :: "bool \<Rightarrow> int list" where
  "mmask_of lp = (if lp then M366MASK else M365MASK)"

definition mdaymask_of :: "bool \<Rightarrow> int list" where
  "mdaymask_of lp = (if lp then MDAY366MASK else MDAY365MASK)"

text \<open>
  The output loop of \<open>rrule._iter\<close> for the results of one year: stop when a result
  lies after \<open>until\<close>; skip results before \<open>dtstart\<close>; stop when the count is used up.
  \<open>rrule_iter\<close> is the loop over the years, which ends after year 9999.  The iterator
  is modelled by the list of everything it yields; \<open>next\<close> takes the head.
\<close>

fun emit :: "date \<Rightarrow> date option \<Rightarrow> int option \<Rightarrow> date list
    \<Rightarrow> date list \<times> int option \<times> bool" where
  "emit dtstart until count [] = ([], count, False)"
| "emit dtstart until count (res # rest) =
     (if (case until of Some u \<Rightarrow> date_less u res | None \<Rightarrow> False) then ([], count, True)
      else if date_le dtstart res then
        (case count of
           Some c \<Rightarrow>
             (if c - 1 < 0 then ([], Some (c - 1), True)
              else (case emit dtstart until (Some (c - 1)) rest of
                      (out, count', stop) \<Rightarrow> (res # out, count', stop)))
         | None \<Rightarrow>
             (case emit dtstart until None rest of
                (out, count', stop) \<Rightarrow> (res # out, count', stop)))
      else emit dtstart until count rest)"

function rrule_iter :: "rrule \<Rightarrow> int option \<Rightarrow> int \<Rightarrow> date list" where
  "rrule_iter rr count yr =
     (case emit (rr_dtstart rr) (rr_until rr) count (year_results rr yr) of
        (out, count', stop) \<Rightarrow>
          if stop then out
          else if yr + 1 > MAXYEAR then out
          else out @ rrule_iter rr count' (yr + 1))"
  by pat_completeness auto

termination
  by (relation "measure (\<lambda>(rr, count, yr). nat (MAXYEAR - yr))") auto

declare rrule_iter.simps [simp del]

definition rrule_list :: "rrule \<Rightarrow> date list" where
  "rrule_list rr = rrule_iter rr (rr_count rr) (year (rr_dtstart rr))"

text \<open>
  \<open>datetime.date(year, month, day)\<close> with its range checks, \<open>datetime.timedelta\<close> with
  whole days and weeks, a date plus a timedelta (\<open>OverflowError\<close> outside of the
  representable ordinals) and the difference of two dates in days.
\<close>

definition date_new :: "int \<Rightarrow> int \<Rightarrow> int \<Rightarrow> error + date" where
  "date_new y m d =
     (if \<not> (MINYEAR \<le> y \<and> y \<le> MAXYEAR) then Inl (ValueError ''year must be in 1..9999'')
      else if \<not> (1 \<le> m \<and> m \<le> 12) then Inl (ValueError ''month must be in 1..12'')
      else if \<not> (1 \<le> d \<and> d \<le> days_in_month y m)
        then Inl (ValueError ''day is out of range for month'')
      else Inr (Date y m d))"

type_synonym timedelta = int

definition timedelta :: "int \<Rightarrow> int \<Rightarrow> timedelta" where
  "timedelta days weeks = days + 7 * weeks"

definition date_add :: "date \<Rightarrow> timedelta \<Rightarrow> error + date" where
  "date_add dt delta =
     (let ord = toordinal dt + delta
      in if 0 < ord \<and> ord \<le> MAXORDINAL then Inr (fromordinal ord) else Inl OverflowError)"

definition date_sub :: "date \<Rightarrow> date \<Rightarrow> timedelta" where
  "date_sub a b = toordinal a - toordinal b"

section \<open>The rules of the repository\<close>

text \<open>
  \<open>_irule(**kwargs)\<close>: the keyword arguments are a record; \<open>None\<close> stands for an argument
  that is absent or \<open>None\<close> (the function drops the \<open>None\<close> values first).  Every caller
  in the repository passes \<open>dtstart\<close>; the default start, the current time, is not
  modelled.  \<open>rrule_new\<close> is \<open>rrule.__init__\<close> for these arguments.
\<close>

datatype freq = YEARLY

datatype wkday = Wkday int int

definition MO :: "int \<Rightarrow> wkday" where "MO n = Wkday 0 n"

definition TH :: "int \<Rightarrow> wkday" where "TH n = Wkday 3 n"

record kwargs =
  kw_freq :: "freq option"
  kw_bymonth :: "int option"
  kw_byweekday :: "wkday option"
  kw_bymonthday :: "int option"
  kw_dtstart :: date
  kw_until :: "date option"
  kw_count :: "int option"

definition rrule_new :: "kwargs \<Rightarrow> rrule" where
  "rrule_new kw =
     (let (bymonth, bymonthday) =
            (if kw_bymonthday kw = None \<and> kw_byweekday kw = None
             then ((case kw_bymonth kw of None \<Rightarrow> Some (month (kw_dtstart kw))
                                        | Some m \<Rightarrow> Some m),
                   Some (day (kw_dtstart kw)))
             else (kw_bymonth kw, kw_bymonthday kw))
      in \<lparr>rr_dtstart = kw_dtstart kw, rr_count = kw_count kw, rr_until = kw_until kw,
          rr_bymonth = bymonth, rr_bymonthday = bymonthday,
          rr_bynweekday = (case kw_byweekday kw of None \<Rightarrow> None
                                                 | Some (Wkday w n) \<Rightarrow> Some (w, n))\<rparr>)"

definition irule :: "kwargs \<Rightarrow> error + date list" where
  "irule kw =
     (case kw_freq kw of
        None \<Rightarrow> Inl AssertionError
      | Some freq \<Rightarrow>
          if \<not> (kw_until kw \<noteq> None \<or> kw_count kw \<noteq> None)
          then (if kw_until kw \<noteq> None \<and> kw_count kw \<noteq> None
                then Inl (ValueError ''Specify either count or until, not both'')
                else Inl (ValueError ''Must specify either count or until.''))
          else Inr (rrule_list (rrule_new kw)))"

text \<open>
  The eight rules, \<open>_thanksgiving\<close> to \<open>_spring_withdraw_deadline\<close>, with the arguments
  the source gives them.
\<close>

definition thanksgiving :: "date \<Rightarrow> date option \<Rightarrow> int option \<Rightarrow> error + date list" where
  "thanksgiving dtstart until count =
     irule \<lparr>kw_freq = Some YEARLY, kw_bymonth = Some 11, kw_byweekday = Some (TH 4),
            kw_bymonthday = None, kw_dtstart = dtstart, kw_until = until, kw_count = count\<rparr>"

definition labor_day :: "date \<Rightarrow> date option \<Rightarrow> int option \<Rightarrow> error + date list" where
  "labor_day dtstart until count =
     irule \<lparr>kw_freq = Some YEARLY, kw_bymonth = Some 9, kw_byweekday = Some (MO 1),
            kw_bymonthday = None, kw_dtstart = dtstart, kw_until = until, kw_count = count\<rparr>"

definition mlk_day :: "date \<Rightarrow> date option \<Rightarrow> int option \<Rightarrow> error + date list" where
  "mlk_day dtstart until count =
     irule \<lparr>kw_freq = Some YEARLY, kw_bymonth = Some 1, kw_byweekday = Some (MO 3),
            kw_bymonthday = None, kw_dtstart = dtstart, kw_until = until, kw_count = count\<rparr>"

definition memorial_day :: "date \<Rightarrow> date option \<Rightarrow> int option \<Rightarrow> error + date list" where
  "memorial_day dtstart until count =
     irule \<lparr>kw_freq = Some YEARLY, kw_bymonth = Some 3, kw_byweekday = Some (MO (- 1)),
            kw_bymonthday = None, kw_dtstart = dtstart, kw_until = until, kw_count = count\<rparr>"

definition independence_day :: "date \<Rightarrow> date option \<Rightarrow> int option \<Rightarrow> error + date list" where
  "independence_day dtstart until count =
     irule \<lparr>kw_freq = Some YEARLY, kw_bymonth = Some 7, kw_byweekday = None,
            kw_bymonthday = Some 4, kw_dtstart = dtstart, kw_until = until, kw_count = count\<rparr>"

definition fall_start :: "date \<Rightarrow> date option \<Rightarrow> int option \<Rightarrow> error + date list" where
  "fall_start dtstart until count =
     irule \<lparr>kw_freq = Some YEARLY, kw_bymonth = Some 8, kw_byweekday = Some (MO (- 2)),
            kw_bymonthday = None, kw_dtstart = dtstart, kw_until = until, kw_count = count\<rparr>"

definition fall_break_start :: "date \<Rightarrow> date option \<Rightarrow> int option \<Rightarrow> error + date list" where
  "fall_break_start dtstart until count =
     irule \<lparr>kw_freq = Some YEARLY, kw_bymonth = Some 10, kw_byweekday = Some (MO (- 2)),
            kw_bymonthday = None, kw_dtstart = dtstart, kw_until = until, kw_count = count\<rparr>"

definition spring_withdraw_deadline ::
    "date \<Rightarrow> date option \<Rightarrow> int option \<Rightarrow> error + date list" where
  "spring_withdraw_deadline dtstart until count =
     irule \<lparr>kw_freq = Some YEARLY, kw_bymonth = Some 3, kw_byweekday = Some (MO 3),
            kw_bymonthday = None, kw_dtstart = dtstart, kw_until = until, kw_count = count\<rparr>"

text \<open>
  \<open>_add_days(d, days)\<close>: \<open>days\<close> is an \<open>int\<close>, a \<open>timedelta\<close> or something else, which
  raises \<open>ValueError\<close>.
\<close>

datatype days_arg = IntDays int | TimedeltaDays timedelta | OtherDays

definition add_days :: "date \<Rightarrow> days_arg \<Rightarrow> error + date" where
  "add_days d days =
     (case days of
        IntDays n \<Rightarrow> date_add d (timedelta n 0)
      | TimedeltaDays td \<Rightarrow> date_add d td
      | OtherDays \<Rightarrow> Inl (ValueError ''days argument must be type int or datetime.timedelta''))"

definition next_iter :: "date list \<Rightarrow> error + (date \<times> date list)" where
  "next_iter it = (case it of [] \<Rightarrow> Inl StopIteration | x # rest \<Rightarrow> Inr (x, rest))"

text \<open>
  For the proofs: the date an \<open>n\<close>-th weekday rule yields in year \<open>y\<close>.
\<close>

definition nth_weekday_date :: "int \<Rightarrow> int \<Rightarrow> int \<Rightarrow> int \<Rightarrow> date" where
  "nth_weekday_date y m wd n =
     (let first = mrange_of (is_leap y) ! nat (m - 1);
          lst = mrange_of (is_leap y) ! nat m - 1
      in Date y m (nth_wday_index first lst (weekday (Date y 1 1)) wd n - first + 1))"

section \<open>The calendar class\<close>

text \<open>
  The iterators the constructor creates and advances, and the object it builds.  The
  dictionary \<open>dates\<close> maps an academic year to the mapping from event names to dates.
\<close>

record iters =
  it_thanksgiving :: "date list"
  it_labor_day :: "date list"
  it_mlk_day :: "date list"
  it_memorial_day :: "date list"
  it_independence_day :: "date list"
  it_fall_start :: "date list"
  it_fall_break_start :: "date list"
  it_spring_withdraw :: "date list"

record BSUCalendar =
  semesters :: "string list"
  sem_code_to_int :: "(string \<times> int) list"
  int_to_sem_code :: "(int \<times> string) list"
  holidays :: "string list"
  tags :: "(string \<times> string list) list"
  min_date :: date
  max_date :: date
  years :: "int list"
  n_yrs :: int
  dates :: "int \<rightharpoonup> (string \<rightharpoonup> date)"

definition term_length :: timedelta where "term_length = timedelta 116 0"

definition sum_term_length :: timedelta where "sum_term_length = timedelta 68 0"

definition xmas_break :: timedelta where "xmas_break = timedelta 24 0"

text \<open>
  The body of the constructor's loop for one academic year, statement by statement: the
  event mapping of the year and the advanced iterators, or the first exception.
\<close>

definition year_dates :: "int \<Rightarrow> iters \<Rightarrow> error + ((string \<rightharpoonup> date) \<times> iters)" where
  "year_dates yr its =
     (let yr_dates = Map.empty in
      rbind (next_iter (it_fall_start its)) (\<lambda>(f_start, fall_start').
      rbind (date_add f_start term_length) (\<lambda>f_end.
      rbind (next_iter (it_fall_break_start its)) (\<lambda>(f_break_start, fall_break_start').
      rbind (add_days f_break_start (IntDays 1)) (\<lambda>f_break_end.
      rbind (add_days f_break_end (IntDays 1)) (\<lambda>f_withdraw_end.
      rbind (next_iter (it_thanksgiving its)) (\<lambda>(tg, thanksgiving').
      rbind (add_days tg (IntDays (- 1))) (\<lambda>f_thank_break_start.
      rbind (add_days f_thank_break_start (IntDays 2)) (\<lambda>f_thank_break_end.
      let yr_dates = yr_dates(''Fall Term Start'' \<mapsto> f_start);
          yr_dates = yr_dates(''Fall Classes Start'' \<mapsto> f_start);
          yr_dates = yr_dates(''Fall Late Registration Start'' \<mapsto> f_start) in
      rbind (add_days f_start (IntDays 4)) (\<lambda>v.
      let yr_dates = yr_dates(''Fall Late Registration End'' \<mapsto> v);
          yr_dates = yr_dates(''Fall Break Start'' \<mapsto> f_break_start);
          yr_dates = yr_dates(''Fall Break End'' \<mapsto> f_break_end);
          yr_dates = yr_dates(''Fall Withdraw Deadline'' \<mapsto> f_withdraw_end);
          yr_dates = yr_dates(''Thanksgiving Break Start'' \<mapsto> f_thank_break_start);
          yr_dates = yr_dates(''Thanksgiving Break End'' \<mapsto> f_thank_break_end) in
      rbind (next_iter (it_labor_day its)) (\<lambda>(v, labor_day').
      let yr_dates = yr_dates(''Labor Day'' \<mapsto> v) in
      rbind (add_days f_end (IntDays (- 4))) (\<lambda>v.
      let yr_dates = yr_dates(''Fall Classes End'' \<mapsto> v) in
      rbind (add_days f_end (IntDays (- 3))) (\<lambda>v.
      let yr_dates = yr_dates(''Fall Finals Start'' \<mapsto> v);
          yr_dates = yr_dates(''Fall Finals End'' \<mapsto> f_end);
          yr_dates = yr_dates(''Fall Term End'' \<mapsto> f_end) in
      rbind (add_days f_end (IntDays 3)) (\<lambda>v.
      let yr_dates = yr_dates(''Fall Final Grades Due'' \<mapsto> v) in
      rbind (add_days f_end (TimedeltaDays xmas_break)) (\<lambda>sp_start.
      rbind (add_days sp_start (TimedeltaDays term_length)) (\<lambda>sp_end.
      rbind (if yr = 2013 then date_add sp_start (timedelta 0 9)
             else date_add sp_start (timedelta 0 8)) (\<lambda>sp_break_start.
      let yr_dates = yr_dates(''Spring Term Start'' \<mapsto> sp_start);
          yr_dates = yr_dates(''Spring Classes Start'' \<mapsto> sp_start);
          yr_dates = yr_dates(''Spring Break Start'' \<mapsto> sp_break_start) in
      rbind (add_days sp_break_start (IntDays 4)) (\<lambda>v.
      let yr_dates = yr_dates(''Spring Break End'' \<mapsto> v) in
      rbind (next_iter (it_spring_withdraw its)) (\<lambda>(v, spring_withdraw').
      let yr_dates = yr_dates(''Spring Withdraw Deadline'' \<mapsto> v) in
      rbind (add_days sp_end (IntDays (- 4))) (\<lambda>v.
      let yr_dates = yr_dates(''Spring Classes End'' \<mapsto> v) in
      rbind (add_days sp_end (IntDays (- 3))) (\<lambda>v.
      let yr_dates = yr_dates(''Spring Finals Start'' \<mapsto> v);
          yr_dates = yr_dates(''Spring Finals End'' \<mapsto> sp_end);
          yr_dates = yr_dates(''Spring Term End'' \<mapsto> sp_end) in
      rbind (add_days sp_end (IntDays 3)) (\<lambda>v.
      let yr_dates = yr_dates(''Spring Final Grades Due'' \<mapsto> v) in
      rbind (add_days sp_end (IntDays 10)) (\<lambda>sm_start.
      rbind (add_days sp_start (TimedeltaDays sum_term_length)) (\<lambda>sm_end.
      let yr_dates = yr_dates(''Summer Term Start'' \<mapsto> sm_start) in
      rbind (next_iter (it_independence_day its)) (\<lambda>(v, independence_day').
      let yr_dates = yr_dates(''Independenc Day'' \<mapsto> v);
          yr_dates = yr_dates(''Summer Term End'' \<mapsto> sm_end) in
      rbind (add_days sm_end (IntDays 3)) (\<lambda>v.
      let yr_dates = yr_dates(''Summer Final Grades Due'' \<mapsto> v) in
      Inr (yr_dates,
           its\<lparr>it_fall_start := fall_start', it_fall_break_start := fall_break_start',
               it_thanksgiving := thanksgiving', it_labor_day := labor_day',
               it_spring_withdraw := spring_withdraw',
               it_independence_day := independence_day'\<rparr>)))))))))))))))))))))))))))"

fun year_loop :: "int list \<Rightarrow> iters \<Rightarrow> (int \<rightharpoonup> (string \<rightharpoonup> date))
    \<Rightarrow> error + (int \<rightharpoonup> (string \<rightharpoonup> date))" where
  "year_loop [] its ds = Inr ds"
| "year_loop (yr # yrs) its ds =
     rbind (year_dates yr its) (\<lambda>(yr_dates, its'). year_loop yrs its' (ds(yr \<mapsto> yr_dates)))"

text \<open>
  \<open>BSUCalendar.__init__(start_year, end_year)\<close>.  The current year, which the default
  \<open>end_year\<close> is computed from, is an argument; logging is left out.
\<close>

definition init :: "int \<Rightarrow> int \<Rightarrow> int option \<Rightarrow> error + BSUCalendar" where
  "init now_year start_year end_year =
     (let hols = [''Thanksgiving Break'', ''Labor Day'', ''MLK Day'', ''Memorial Day'',
                  ''Independence Day''];
          tgs = [(''Registration'', [''Late Registration Start'', ''Late Registration End'',
                                     ''Withdraw Deadline'']),
                 (''Instruction'', [''Classes Start'', ''Classes End'', ''Break Start'',
                                    ''Break End'', ''Finals Start'', ''Finals End'',
                                    ''Final Grades Due'']),
                 (''Holidays'', hols)] in
      rbind (date_new start_year 8 1) (\<lambda>mn.
      let end_year = (case end_year of None \<Rightarrow> now_year + 2 | Some e \<Rightarrow> e) in
      rbind (date_new end_year 8 1) (\<lambda>mx.
      let yrs = [year mn..year mx - 1];
          n = int (length yrs) in
      rbind (thanksgiving mn None (Some n)) (\<lambda>tg.
      rbind (labor_day mn None (Some n)) (\<lambda>ld.
      rbind (mlk_day mn None (Some n)) (\<lambda>mlk.
      rbind (memorial_day mn None (Some n)) (\<lambda>mem.
      rbind (independence_day mn None (Some n)) (\<lambda>ind.
      rbind (fall_start mn None (Some n)) (\<lambda>fs.
      rbind (fall_break_start mn None (Some n)) (\<lambda>fbs.
      rbind (spring_withdraw_deadline mn None (Some n)) (\<lambda>sw.
      rbind (year_loop yrs
               \<lparr>it_thanksgiving = tg, it_labor_day = ld, it_mlk_day = mlk,
                it_memorial_day = mem, it_independence_day = ind, it_fall_start = fs,
                it_fall_break_start = fbs, it_spring_withdraw = sw\<rparr> Map.empty) (\<lambda>ds.
      Inr \<lparr>semesters = [''Fall'', ''Spring'', ''Summer''],
           sem_code_to_int = [(''Fall'', 10), (''Spring'', 20), (''Summer'', 30)],
           int_to_sem_code = [(10, ''Fall''), (20, ''Spring''), (30, ''Summer'')],
           holidays = hols, tags = tgs, min_date = mn, max_date = mx,
           years = yrs, n_yrs = n, dates = ds\<rparr>))))))))))))"

text \<open>
  \<open>date_in_term(term, field)\<close> for an integer \<open>term\<close>: \<open>round(term, -2)\<close> rounds to the
  nearest hundred, halves to the even hundred; the quotient by 100 is computed in floating
  point, exactly for every term code below \<open>2^53\<close>.
\<close>

definition py_round_hundreds :: "int \<Rightarrow> int" where
  "py_round_hundreds x =
     (let q = x div 100; r = x mod 100
      in if r < 50 then 100 * q
         else if r > 50 then 100 * (q + 1)
         else if even q then 100 * q else 100 * (q + 1))"

definition date_in_term :: "BSUCalendar \<Rightarrow> int \<Rightarrow> string \<Rightarrow> error + date" where
  "date_in_term self term field =
     (let yr = py_round_hundreds term div 100
      in case dates self yr of
           None \<Rightarrow> Inl KeyError
         | Some yr_dates \<Rightarrow>
             (case yr_dates field of None \<Rightarrow> Inl KeyError | Some d \<Rightarrow> Inr d))"

text \<open>
  \<open>dates_by_tag(tag)\<close>.  Its first statement reads the name \<open>term\<close>, which is not a
  parameter, not a local and not a global of the module, so \<open>NameError\<close> is raised.  The
  statements after it are kept for the record: calling the dictionary
  \<open>int_to_sem_code\<close> raises \<open>TypeError\<close>; a known tag leads to a call of \<open>get_holiday\<close>
  with a missing argument or to a lookup of a string key in \<open>dates\<close>; for an unknown tag
  the \<open>ValueError\<close> is built but not raised, and the function returns \<open>None\<close>.
\<close>

definition module_globals :: "string \<rightharpoonup> int" where
  "module_globals = Map.empty"

definition dates_by_tag :: "BSUCalendar \<Rightarrow> string \<Rightarrow> error + (string \<rightharpoonup> date) option" where
  "dates_by_tag self tag =
     (case module_globals ''term'' of
        None \<Rightarrow> Inl NameError
      | Some term \<Rightarrow>
          (let yr = py_round_hundreds term div 100 in
           rbind (Inl TypeError :: error + string) (\<lambda>sem.
             if tag \<in> set (map fst (tags self))
             then (if tag = ''Holidays'' then Inl TypeError else Inl KeyError)
             else Inr None)))"

text \<open>
  \<open>get_holiday(holiday, ac_year)\<close>.  The attribute name is \<open>"_"\<close> followed by the
  holiday name in lower case with \<open>_\<close> for each space (ASCII strings).  \<open>getattr\<close> gives
  what \<open>hasattr\<close> and \<open>getattr\<close> find on the object, as the function of the
  keyword arguments \<open>dtstart\<close> and \<open>count\<close>: the eight rules; \<open>_irule\<close>, whose assertion
  on \<open>freq\<close> fails; and \<open>_logger\<close>, \<open>_set_logger\<close>, \<open>_add_days\<close> and the attributes of
  every Python object, for which such a call is a \<open>TypeError\<close>.
\<close>

definition lower :: "string \<Rightarrow> string" where
  "lower s = map (\<lambda>c. case map_of (zip ''ABCDEFGHIJKLMNOPQRSTUVWXYZ''
                                         ''abcdefghijklmnopqrstuvwxyz'') c of
                        Some l \<Rightarrow> l | None \<Rightarrow> c) s"

definition replace :: "string \<Rightarrow> char \<Rightarrow> char \<Rightarrow> string" where
  "replace s old new = map (\<lambda>c. if c = old then new else c) s"

definition object_attrs :: "string list" where
  "object_attrs = [''__class__'', ''__delattr__'', ''__dict__'', ''__dir__'', ''__doc__'',
     ''__eq__'', ''__format__'', ''__ge__'', ''__getattribute__'', ''__getstate__'',
     ''__gt__'', ''__hash__'', ''__init__'', ''__init_subclass__'', ''__le__'', ''__lt__'',
     ''__module__'', ''__ne__'', ''__new__'', ''__reduce__'', ''__reduce_ex__'',
     ''__repr__'', ''__setattr__'', ''__sizeof__'', ''__str__'', ''__subclasshook__'',
     ''__weakref__'']"

definition getattr :: "string \<Rightarrow> (date \<Rightarrow> int \<Rightarrow> error + date list) option" where
  "getattr attr_name =
     (if attr_name = ''_thanksgiving'' then Some (\<lambda>d c. thanksgiving d None (Some c))
      else if attr_name = ''_labor_day'' then Some (\<lambda>d c. labor_day d None (Some c))
      else if attr_name = ''_mlk_day'' then Some (\<lambda>d c. mlk_day d None (Some c))
      else if attr_name = ''_memorial_day'' then Some (\<lambda>d c. memorial_day d None (Some c))
      else if attr_name = ''_independence_day''
        then Some (\<lambda>d c. independence_day d None (Some c))
      else if attr_name = ''_fall_start'' then Some (\<lambda>d c. fall_start d None (Some c))
      else if attr_name = ''_fall_break_start''
        then Some (\<lambda>d c. fall_break_start d None (Some c))
      else if attr_name = ''_spring_withdraw_deadline''
        then Some (\<lambda>d c. spring_withdraw_deadline d None (Some c))
      else if attr_name = ''_irule''
        then Some (\<lambda>d c. irule \<lparr>kw_freq = None, kw_bymonth = None, kw_byweekday = None,
                    kw_bymonthday = None, kw_dtstart = d, kw_until = None, kw_count = Some c\<rparr>)
      else if attr_name \<in> set [''_logger'', ''_set_logger'', ''_add_days'']
              \<or> attr_name \<in> set object_attrs
        then Some (\<lambda>d c. Inl TypeError)
      else None)"

definition get_holiday :: "BSUCalendar \<Rightarrow> string \<Rightarrow> int \<Rightarrow> error + date" where
  "get_holiday self holiday ac_year =
     (let attr_name = ''_'' @ replace (lower holiday) (CHR '' '') (CHR ''_'')
      in case getattr attr_name of
           Some gen_holiday \<Rightarrow>
             (let ac_year = (if holiday \<in> set [''MLK Day'', ''Memorial Day'', ''Independence Day'']
                             then ac_year + 1 else ac_year)
              in rbind (date_new ac_year 1 1) (\<lambda>dtstart.
                 rbind (gen_holiday dtstart 1) (\<lambda>it.
                   case it of [] \<Rightarrow> Inl IndexError | x # _ \<Rightarrow> Inr x)))
         | None \<Rightarrow> Inl (ValueError (''Holiday '' @ holiday @ '' not recognized'')))"

text \<open>
  For the proofs: the event mapping of a year, from the dates the six consumed rules
  yield.
\<close>

definition year_map :: "int \<Rightarrow> date \<Rightarrow> date \<Rightarrow> date \<Rightarrow> date \<Rightarrow> date \<Rightarrow> date
    \<Rightarrow> (string \<rightharpoonup> date)" where
  "year_map yr fs fb tg ld sw ind =
     (let F = (\<lambda>k. fromordinal (toordinal fs + k));
          sb = (if yr = 2013 then 203 else 196)
      in [''Fall Term Start'' \<mapsto> fs,
          ''Fall Classes Start'' \<mapsto> fs,
          ''Fall Late Registration Start'' \<mapsto> fs,
          ''Fall Late Registration End'' \<mapsto> F 4,
          ''Fall Break Start'' \<mapsto> fb,
          ''Fall Break End'' \<mapsto> fromordinal (toordinal fb + 1),
          ''Fall Withdraw Deadline'' \<mapsto> fromordinal (toordinal fb + 2),
          ''Thanksgiving Break Start'' \<mapsto> fromordinal (toordinal tg - 1),
          ''Thanksgiving Break End'' \<mapsto> fromordinal (toordinal tg + 1),
          ''Labor Day'' \<mapsto> ld,
          ''Fall Classes End'' \<mapsto> F 112,
          ''Fall Finals Start'' \<mapsto> F 113,
          ''Fall Finals End'' \<mapsto> F 116,
          ''Fall Term End'' \<mapsto> F 116,
          ''Fall Final Grades Due'' \<mapsto> F 119,
          ''Spring Term Start'' \<mapsto> F 140,
          ''Spring Classes Start'' \<mapsto> F 140,
          ''Spring Break Start'' \<mapsto> F sb,
          ''Spring Break End'' \<mapsto> F (sb + 4),
          ''Spring Withdraw Deadline'' \<mapsto> sw,
          ''Spring Classes End'' \<mapsto> F 252,
          ''Spring Finals Start'' \<mapsto> F 253,
          ''Spring Finals End'' \<mapsto> F 256,
          ''Spring Term End'' \<mapsto> F 256,
          ''Spring Final Grades Due'' \<mapsto> F 259,
          ''Summer Term Start'' \<mapsto> F 266,
          ''Independenc Day'' \<mapsto> ind,
          ''Summer Term End'' \<mapsto> F 208,
          ''Summer Final Grades Due'' \<mapsto> F 211])"

text \<open>
  For the proofs: the mapping the constructor stores for academic year \<open>y\<close>, and the
  end year it uses.
\<close>

definition stored_dates :: "int \<Rightarrow> (string \<rightharpoonup> date)" where
  "stored_dates y =
     year_map y (nth_weekday_date y 8 0 (- 2)) (nth_weekday_date y 10 0 (- 2))
       (nth_weekday_date y 11 3 4) (nth_weekday_date y 9 0 1)
       (nth_weekday_date (y + 1) 3 0 3) (Date (y + 1) 7 4)"

definition end_year_of :: "int \<Rightarrow> int option \<Rightarrow> int" where
  "end_year_of now_year end_year = (case end_year of None \<Rightarrow> now_year + 2 | Some e \<Rightarrow> e)"

section \<open>Ordinals and dates are inverse to each other\<close>

lemma dby_decomp:
  assumes "0 \<le> b" "b \<le> 3" "0 \<le> c" "c \<le> 24" "0 \<le> d" "d \<le> 3"
  shows "days_before_year (400 * a + 100 * b + 4 * c + d + 1) =
         146097 * a + 36524 * b + 1461 * c + 365 * d"
proof -
  let ?Y = "400 * a + 100 * b + 4 * c + d"
  have d4: "?Y div 4 = 100 * a + 25 * b + c" using assms by arith
  have d100: "?Y div 100 = 4 * a + b" using assms by arith
  have d400: "?Y div 400 = a" using assms by arith
  show ?thesis
    unfolding days_before_year_def Let_def
    using d4 d100 d400 by simp
qed

lemma month_day_ok:
  assumes "0 \<le> n" "n < (if lp then 366 else 365)"
  shows "case month_day lp n of (m, d) \<Rightarrow>
           1 \<le> m \<and> m \<le> 12 \<and> 1 \<le> d
           \<and> d \<le> (if m = 2 \<and> lp then 29 else DAYS_IN_MONTH ! nat m)
           \<and> DAYS_BEFORE_MONTH ! nat m + (if m > 2 \<and> lp then 1 else 0) + d = n + 1"
proof -
  define k where "k = (n + 50) div 32"
  have kb: "1 \<le> k" "k \<le> 12" using assms unfolding k_def by (auto split: if_splits)
  have kn: "32 * k \<le> n + 50" "n + 50 < 32 * k + 32" unfolding k_def by arith+
  from kb have "k = 1 \<or> k = 2 \<or> k = 3 \<or> k = 4 \<or> k = 5 \<or> k = 6
    \<or> k = 7 \<or> k = 8 \<or> k = 9 \<or> k = 10 \<or> k = 11 \<or> k = 12" by arith
  then show ?thesis using kn assms
    by (elim disjE)
       (simp_all add: month_day_def k_def[symmetric] DAYS_BEFORE_MONTH_def DAYS_IN_MONTH_def
          Let_def split: if_splits)
qed

lemma is_leap_decomp:
  assumes "0 \<le> b" "b \<le> 3" "0 \<le> c" "c \<le> 24" "0 \<le> d" "d \<le> 3"
  shows "is_leap (400 * a + 100 * b + 4 * c + d + 1) = (d = 3 \<and> (c \<noteq> 24 \<or> b = 3))"
proof -
  let ?y = "400 * a + 100 * b + 4 * c + d + 1"
  have e4: "?y = (d + 1) + 4 * (100 * a + 25 * b + c)" by simp
  have e100: "?y = (4 * c + d + 1) + 100 * (4 * a + b)" by simp
  have e400: "?y = (100 * b + 4 * c + d + 1) + 400 * a" by simp
  have m4: "?y mod 4 = (d + 1) mod 4" unfolding e4 by (rule mod_mult_self2)
  have m100: "?y mod 100 = (4 * c + d + 1) mod 100" unfolding e100 by (rule mod_mult_self2)
  have m400: "?y mod 400 = (100 * b + 4 * c + d + 1) mod 400" unfolding e400 by (rule mod_mult_self2)
  have a4: "((d + 1) mod 4 = 0) = (d = 3)"
  proof (cases "d = 3")
    case True then show ?thesis by simp
  next
    case False
    then have "0 < d + 1" "d + 1 < 4" using assms by linarith+
    then have "(d + 1) mod 4 = d + 1" by simp
    then show ?thesis using False assms by linarith
  qed
  have a100: "((4 * c + d + 1) mod 100 = 0) = (c = 24 \<and> d = 3)"
  proof (cases "c = 24 \<and> d = 3")
    case True then show ?thesis by simp
  next
    case False
    then have "0 < 4 * c + d + 1" "4 * c + d + 1 < 100" using assms by linarith+
    then have "(4 * c + d + 1) mod 100 = 4 * c + d + 1" by simp
    then show ?thesis using False assms by linarith
  qed
  have a400: "((100 * b + 4 * c + d + 1) mod 400 = 0) = (b = 3 \<and> c = 24 \<and> d = 3)"
  proof (cases "b = 3 \<and> c = 24 \<and> d = 3")
    case True then show ?thesis by simp
  next
    case False
    then have "0 < 100 * b + 4 * c + d + 1" "100 * b + 4 * c + d + 1 < 400"
      using assms by linarith+
    then have "(100 * b + 4 * c + d + 1) mod 400 = 100 * b + 4 * c + d + 1" by simp
    then show ?thesis using False assms by linarith
  qed
  show ?thesis unfolding is_leap_def m4 m100 m400 a4 a100 a400 by blast
qed

lemma year_decomp:
  obtains a b c d :: int where "y = 400 * a + 100 * b + 4 * c + d + 1"
    "0 \<le> b" "b \<le> 3" "0 \<le> c" "c \<le> 24" "0 \<le> d" "d \<le> 3"
proof -
  let ?Y = "y - 1"
  let ?a = "?Y div 400" and ?b = "(?Y mod 400) div 100"
  let ?c = "(?Y mod 100) div 4" and ?d = "?Y mod 4"
  have 1: "?Y = 400 * ?a + ?Y mod 400" by simp
  have 2: "?Y mod 400 = 100 * ?b + (?Y mod 400) mod 100" by simp
  have 3: "(?Y mod 400) mod 100 = ?Y mod 100" by (simp add: mod_mod_cancel)
  have 4: "?Y mod 100 = 4 * ?c + (?Y mod 100) mod 4" by simp
  have 5: "(?Y mod 100) mod 4 = ?Y mod 4" by (simp add: mod_mod_cancel)
  have "y = 400 * ?a + 100 * ?b + 4 * ?c + ?d + 1" using 1 2 3 4 5 by linarith
  moreover have "0 \<le> ?b" "?b \<le> 3" "0 \<le> ?c" "?c \<le> 24" "0 \<le> ?d" "?d \<le> 3"
    by simp_all
  ultimately show ?thesis using that by blast
qed

lemma ord2ymd_eq:
  assumes "n0 - 1 = 146097 * q + r" "0 \<le> r" "r < 146097"
    and "r = 36524 * n100 + r100" "0 \<le> r100" "r100 < 36524"
    and "r100 = 1461 * n4 + r4" "0 \<le> r4" "r4 < 1461"
    and "r4 = 365 * n1 + r1" "0 \<le> r1" "r1 < 365"
  shows "ord2ymd n0 =
    (if n1 = 4 \<or> n100 = 4 then (400 * q + 100 * n100 + 4 * n4 + n1, 12, 31)
     else (400 * q + 100 * n100 + 4 * n4 + n1 + 1,
           month_day (n1 = 3 \<and> (n4 \<noteq> 24 \<or> n100 = 3)) r1))"
proof -
  have 1: "(n0 - 1) div 146097 = q" "(n0 - 1) mod 146097 = r"
    using assms(1-3) by (auto intro: int_div_pos_eq int_mod_pos_eq)
  have 2: "r div 36524 = n100" "r mod 36524 = r100"
    using assms(4-6) by (auto intro: int_div_pos_eq int_mod_pos_eq)
  have 3: "r100 div 1461 = n4" "r100 mod 1461 = r4"
    using assms(7-9) by (auto intro: int_div_pos_eq int_mod_pos_eq)
  have 4: "r4 div 365 = n1" "r4 mod 365 = r1"
    using assms(10-12) by (auto intro: int_div_pos_eq int_mod_pos_eq)
  show ?thesis
    unfolding ord2ymd_def Let_def DI400Y_def DI100Y_def DI4Y_def 1 2 3 4
    by (simp add: split_def)
qed

lemma month_day_365: "month_day True 365 = (12, 31)"
  by (simp add: month_day_def DAYS_BEFORE_MONTH_def DAYS_IN_MONTH_def)

lemma ord2ymd_yday:
  assumes i: "0 \<le> i" "i < (if is_leap y then 366 else 365)"
  shows "ord2ymd (days_before_year y + i + 1) = (y, month_day (is_leap y) i)"
proof -
  obtain a b c d :: int where y: "y = 400 * a + 100 * b + 4 * c + d + 1"
    and bd: "0 \<le> b" "b \<le> 3" "0 \<le> c" "c \<le> 24" "0 \<le> d" "d \<le> 3"
    by (rule year_decomp)
  have dby: "days_before_year y = 146097 * a + 36524 * b + 1461 * c + 365 * d"
    unfolding y using bd by (rule dby_decomp)
  have lp: "is_leap y = (d = 3 \<and> (c \<noteq> 24 \<or> b = 3))"
    unfolding y using bd by (rule is_leap_decomp)
  show ?thesis
  proof (cases "i = 365")
    case True
    with i have L: "is_leap y" by (auto split: if_splits)
    then have d3: "d = 3" and cb: "c \<noteq> 24 \<or> b = 3" using lp by auto
    show ?thesis
    proof (cases "c = 24")
      case True
      with cb have b3: "b = 3" by simp
      have "ord2ymd (days_before_year y + i + 1) =
        (if (0::int) = 4 \<or> (4::int) = 4 then (400 * a + 100 * 4 + 4 * 0 + 0, 12, 31)
         else (400 * a + 100 * 4 + 4 * 0 + 0 + 1,
           month_day ((0::int) = 3 \<and> ((0::int) \<noteq> 24 \<or> (4::int) = 3)) 0))"
        by (rule ord2ymd_eq[where r = 146096 and ?r100.0 = 0 and ?r4.0 = 0])
           (simp_all add: dby d3 b3 True \<open>i = 365\<close>)
      then show ?thesis using L by (simp add: \<open>i = 365\<close> month_day_365 y d3 b3 True)
    next
      case False
      then have c23: "c \<le> 23" using bd by simp
      have "ord2ymd (days_before_year y + i + 1) =
        (if (4::int) = 4 \<or> b = 4 then (400 * a + 100 * b + 4 * c + 4, 12, 31)
         else (400 * a + 100 * b + 4 * c + 4 + 1,
           month_day ((4::int) = 3 \<and> (c \<noteq> 24 \<or> b = 3)) 0))"
        by (rule ord2ymd_eq[where r = "36524 * b + 1461 * c + 1460"
              and ?r100.0 = "1461 * c + 1460" and ?r4.0 = 1460])
           (use bd c23 in \<open>simp_all add: dby d3 \<open>i = 365\<close>\<close>)
      then show ?thesis using L by (simp add: \<open>i = 365\<close> month_day_365 y d3)
    qed
  next
    case False
    with i have i364: "i \<le> 364" by (auto split: if_splits)
    have "ord2ymd (days_before_year y + i + 1) =
        (if d = 4 \<or> b = 4 then (400 * a + 100 * b + 4 * c + d, 12, 31)
         else (400 * a + 100 * b + 4 * c + d + 1,
           month_day (d = 3 \<and> (c \<noteq> 24 \<or> b = 3)) i))"
      by (rule ord2ymd_eq[where r = "36524 * b + 1461 * c + 365 * d + i"
            and ?r100.0 = "1461 * c + 365 * d + i" and ?r4.0 = "365 * d + i"])
         (use bd i i364 in \<open>simp_all add: dby\<close>)
    then show ?thesis using bd by (simp add: lp[unfolded y] y)
  qed
qed

lemma ymd2ord_ord2ymd:
  "case ord2ymd n of (y, m, d) \<Rightarrow> ymd2ord y m d = n \<and> 1 \<le> m \<and> m \<le> 12
      \<and> 1 \<le> d \<and> d \<le> days_in_month y m"
proof -
  define q where "q = (n - 1) div 146097"
  define r where "r = (n - 1) mod 146097"
  define n100 where "n100 = r div 36524"
  define r100 where "r100 = r mod 36524"
  define n4 where "n4 = r100 div 1461"
  define r4 where "r4 = r100 mod 1461"
  define n1 where "n1 = r4 div 365"
  define r1 where "r1 = r4 mod 365"
  have e: "n - 1 = 146097 * q + r" "r = 36524 * n100 + r100" "r100 = 1461 * n4 + r4"
    "r4 = 365 * n1 + r1"
    unfolding q_def r_def n100_def r100_def n4_def r4_def n1_def r1_def by simp_all
  have b: "0 \<le> r" "r < 146097" "0 \<le> r100" "r100 < 36524" "0 \<le> r4" "r4 < 1461"
    "0 \<le> r1" "r1 < 365"
    unfolding r_def r100_def r4_def r1_def by simp_all
  have nb: "0 \<le> n100" "n100 \<le> 4" "0 \<le> n4" "n4 \<le> 24" "0 \<le> n1" "n1 \<le> 4"
    using e b by linarith+
  define yy where "yy = 400 * q + 100 * n100 + 4 * n4 + n1"
  have eq: "ord2ymd n =
    (if n1 = 4 \<or> n100 = 4 then (yy, 12, 31)
     else (yy + 1, month_day (n1 = 3 \<and> (n4 \<noteq> 24 \<or> n100 = 3)) r1))"
    unfolding yy_def
    using e(1) b(1,2) e(2) b(3,4) e(3) b(5,6) e(4) b(7,8) by (rule ord2ymd_eq)
  show ?thesis
  proof (cases "n100 = 4")
    case True
    then have z: "r100 = 0" "n4 = 0" "r4 = 0" "n1 = 0" "r1 = 0" using e b nb by linarith+
    have yy: "yy = 400 * q + 100 * 3 + 4 * 24 + 3 + 1" unfolding yy_def using True z by simp
    have "days_before_year yy = 146097 * q + 36524 * 3 + 1461 * 24 + 365 * 3"
      unfolding yy by (rule dby_decomp) simp_all
    moreover have "is_leap yy"
      unfolding yy by (subst is_leap_decomp) simp_all
    ultimately show ?thesis unfolding eq using e True z
      by (simp add: ymd2ord_def days_before_month_def days_in_month_def
            DAYS_BEFORE_MONTH_def DAYS_IN_MONTH_def)
  next
    case n100: False
    then have n100b: "n100 \<le> 3" using nb by simp
    show ?thesis
    proof (cases "n1 = 4")
      case True
      then have z: "r1 = 0" using e b nb by linarith
      have n4b: "n4 \<le> 23" using True e b nb by linarith
      have yy: "yy = 400 * q + 100 * n100 + 4 * n4 + 3 + 1" unfolding yy_def using True by simp
      have "days_before_year yy = 146097 * q + 36524 * n100 + 1461 * n4 + 365 * 3"
        unfolding yy by (rule dby_decomp) (use nb n100b n4b in simp_all)
      moreover have "is_leap yy"
        unfolding yy by (subst is_leap_decomp) (use nb n100b n4b in simp_all)
      ultimately show ?thesis unfolding eq using e True z
        by (simp add: ymd2ord_def days_before_month_def days_in_month_def
              DAYS_BEFORE_MONTH_def DAYS_IN_MONTH_def)
    next
      case False
      then have n1b: "n1 \<le> 3" using nb by simp
      define L where "L = (n1 = 3 \<and> (n4 \<noteq> 24 \<or> n100 = 3))"
      obtain m d where md: "month_day L r1 = (m, d)" by force
      have dby: "days_before_year (yy + 1) = 146097 * q + 36524 * n100 + 1461 * n4 + 365 * n1"
        unfolding yy_def by (rule dby_decomp) (use nb n100b n1b in simp_all)
      have lp: "is_leap (yy + 1) = L"
        unfolding yy_def L_def by (rule is_leap_decomp) (use nb n100b n1b in simp_all)
      have res: "ord2ymd n = (yy + 1, m, d)"
        unfolding eq using False n100 md by (simp add: L_def)
      have ok: "1 \<le> m \<and> m \<le> 12 \<and> 1 \<le> d
           \<and> d \<le> (if m = 2 \<and> L then 29 else DAYS_IN_MONTH ! nat m)
           \<and> DAYS_BEFORE_MONTH ! nat m + (if m > 2 \<and> L then 1 else 0) + d = r1 + 1"
        using month_day_ok[of r1 L] b md by simp
      have "ymd2ord (yy + 1) m d = n"
        unfolding ymd2ord_def days_before_month_def dby lp using ok e by linarith
      moreover have "d \<le> days_in_month (yy + 1) m"
        unfolding days_in_month_def lp using ok by simp
      ultimately show ?thesis unfolding res using ok by simp
    qed
  qed
qed

section \<open>What a rule yields in one year\<close>

lemma M365MASK_eq:
  "M365MASK = replicate 31 1 @ replicate 28 2 @ replicate 31 3 @ replicate 30 4
     @ replicate 31 5 @ replicate 30 6 @ replicate 31 7 @ replicate 31 8
     @ replicate 30 9 @ replicate 31 10 @ replicate 30 11 @ replicate 31 12
     @ replicate 7 1"
  unfolding M365MASK_def M366MASK_def del_def
  by (simp add: replicate_add[symmetric])

lemma upto_split_28: "[1..29] = [1..28] @ [29::int]"
  by (simp add: upto_rec2)

lemma MDAY365MASK_eq:
  "MDAY365MASK = [1..31] @ [1..28] @ [1..31] @ [1..30] @ [1..31] @ [1..30] @ [1..31]
     @ [1..31] @ [1..30] @ [1..31] @ [1..30] @ [1..31] @ take 7 [1..31]"
  unfolding MDAY365MASK_def MDAY366MASK_def del_def Let_def upto_split_28
  by simp

lemma month_cases:
  assumes "1 \<le> m" "m \<le> 12"
  shows "m = 1 \<or> m = 2 \<or> m = 3 \<or> m = 4 \<or> m = 5 \<or> m = 6 \<or> m = 7 \<or> m = 8
     \<or> m = 9 \<or> m = 10 \<or> m = 11 \<or> m = (12::int)"
  using assms by arith

lemma M365MASK_blk:
  assumes "1 \<le> m" "m \<le> 12" "int j < M365RANGE ! nat m - M365RANGE ! nat (m - 1)"
  shows "M365MASK ! (nat (M365RANGE ! nat (m - 1)) + j) = m"
  using month_cases[OF assms(1,2)] assms(3)
  by (elim disjE) (simp_all add: M365RANGE_def M365MASK_eq nth_append)

lemma M366MASK_blk:
  assumes "1 \<le> m" "m \<le> 12" "int j < M366RANGE ! nat m - M366RANGE ! nat (m - 1)"
  shows "M366MASK ! (nat (M366RANGE ! nat (m - 1)) + j) = m"
  using month_cases[OF assms(1,2)] assms(3)
  by (elim disjE) (simp_all add: M366RANGE_def M366MASK_def nth_append)

lemma MDAY365MASK_blk:
  assumes "1 \<le> m" "m \<le> 12" "int j < M365RANGE ! nat m - M365RANGE ! nat (m - 1)"
  shows "MDAY365MASK ! (nat (M365RANGE ! nat (m - 1)) + j) = int j + 1"
  using month_cases[OF assms(1,2)] assms(3)
  by (elim disjE) (simp_all add: M365RANGE_def MDAY365MASK_eq nth_append nth_upto)

lemma MDAY366MASK_blk:
  assumes "1 \<le> m" "m \<le> 12" "int j < M366RANGE ! nat m - M366RANGE ! nat (m - 1)"
  shows "MDAY366MASK ! (nat (M366RANGE ! nat (m - 1)) + j) = int j + 1"
  using month_cases[OF assms(1,2)] assms(3)
  by (elim disjE) (simp_all add: M366RANGE_def MDAY366MASK_def Let_def nth_append nth_upto)

lemma week_nth: "k < 7 \<Longrightarrow> [0, 1, 2, 3, 4, 5, 6 :: int] ! k = int k"
proof -
  assume "k < 7"
  then have "k = 0 \<or> k = 1 \<or> k = 2 \<or> k = 3 \<or> k = 4 \<or> k = 5 \<or> k = 6" by arith
  then show ?thesis by (elim disjE) simp_all
qed

lemma concat_replicate_nth:
  "0 < length w \<Longrightarrow> k < length w * n \<Longrightarrow> concat (replicate n w) ! k = w ! (k mod length w)"
proof (induction n arbitrary: k)
  case 0
  then show ?case by simp
next
  case (Suc n)
  show ?case
  proof (cases "k < length w")
    case True
    then show ?thesis by (simp add: nth_append)
  next
    case False
    then have "k - length w < length w * n" using Suc.prems by simp
    then have "concat (replicate n w) ! (k - length w) = w ! ((k - length w) mod length w)"
      using Suc.prems(1) by (rule Suc.IH[rotated])
    moreover have "(k - length w) mod length w = k mod length w"
      using False by (simp add: le_mod_geq)
    ultimately show ?thesis using False by (simp add: nth_append)
  qed
qed

lemma WDAYMASK_nth: "k < 385 \<Longrightarrow> WDAYMASK ! k = int k mod 7"
proof -
  assume k: "k < 385"
  have "WDAYMASK ! k = [0, 1, 2, 3, 4, 5, 6 :: int] ! (k mod length [0, 1, 2, 3, 4, 5, 6 :: int])"
    unfolding WDAYMASK_def by (rule concat_replicate_nth) (use k in simp_all)
  also have "\<dots> = int (k mod 7)" by (simp add: week_nth)
  finally show ?thesis by (simp add: zmod_int)
qed

lemma month_day_range:
  assumes "0 \<le> n" "n < (if lp then 366 else 365)" "month_day lp n = (m, d)"
  shows "1 \<le> m \<and> m \<le> 12 \<and> mrange_of lp ! nat (m - 1) \<le> n \<and> n < mrange_of lp ! nat m
         \<and> d = n - mrange_of lp ! nat (m - 1) + 1"
proof -
  from month_day_ok[OF assms(1,2)] assms(3)
  have ok: "1 \<le> m" "m \<le> 12" "1 \<le> d"
    "d \<le> (if m = 2 \<and> lp then 29 else DAYS_IN_MONTH ! nat m)"
    "DAYS_BEFORE_MONTH ! nat m + (if m > 2 \<and> lp then 1 else 0) + d = n + 1"
    by simp_all
  show ?thesis
    using month_cases[OF ok(1,2)] ok(3-5)
    by (elim disjE)
       (simp_all add: mrange_of_def M366RANGE_def M365RANGE_def DAYS_IN_MONTH_def
          DAYS_BEFORE_MONTH_def split: if_splits)
qed

lemma month_day_at:
  assumes m: "1 \<le> m" "m \<le> 12"
    and n: "mrange_of lp ! nat (m - 1) \<le> n" "n < mrange_of lp ! nat m"
  shows "month_day lp n = (m, n - mrange_of lp ! nat (m - 1) + 1)"
proof -
  have n0: "0 \<le> n" "n < (if lp then 366 else 365)"
    using month_cases[OF m] n
    by (elim disjE; simp add: mrange_of_def M366RANGE_def M365RANGE_def split: if_splits)+
  obtain m' d' where md: "month_day lp n = (m', d')" by force
  from month_day_range[OF n0 md]
  have r: "1 \<le> m'" "m' \<le> 12" "mrange_of lp ! nat (m' - 1) \<le> n" "n < mrange_of lp ! nat m'"
    "d' = n - mrange_of lp ! nat (m' - 1) + 1" by simp_all
  have "m' = m"
    using month_cases[OF m] month_cases[OF r(1,2)] n r(3,4)
    by (elim disjE; simp add: mrange_of_def M366RANGE_def M365RANGE_def split: if_splits)
  then show ?thesis using md r(5) by simp
qed

lemma isleap_eq: "isleap y = is_leap y"
  by (simp add: isleap_def is_leap_def)

lemma filter_upto_single:
  "filter (\<lambda>i. i = a \<and> P i) [l..u] = (if l \<le> a \<and> a \<le> u \<and> P a then [a] else [])"
proof (induction l u rule: upto.induct)
  case (1 i j)
  show ?case
  proof (cases "i \<le> j")
    case True
    then have "[i..j] = i # [i + 1..j]" by (simp add: upto_rec1)
    then show ?thesis using 1[OF True] True by auto
  next
    case False
    then show ?thesis by simp
  qed
qed

lemma days_before_month_mrange:
  assumes "1 \<le> m" "m \<le> 12"
  shows "days_before_month y m = mrange_of (is_leap y) ! nat (m - 1)"
  using month_cases[OF assms]
  by (elim disjE)
     (simp_all add: days_before_month_def mrange_of_def DAYS_BEFORE_MONTH_def M366RANGE_def
        M365RANGE_def)

lemma toordinal_jan1: "toordinal (Date y 1 1) = days_before_year y + 1"
  by (simp add: toordinal_def ymd2ord_def days_before_month_def DAYS_BEFORE_MONTH_def)

lemma fromordinal_yday:
  assumes "1 \<le> m" "m \<le> 12"
    and "mrange_of (is_leap y) ! nat (m - 1) \<le> i" "i < mrange_of (is_leap y) ! nat m"
  shows "fromordinal (toordinal (Date y 1 1) + i)
         = Date y m (i - mrange_of (is_leap y) ! nat (m - 1) + 1)"
proof -
  have i0: "0 \<le> i" "i < (if is_leap y then 366 else 365)"
    using month_cases[OF assms(1,2)] assms(3,4)
    by (elim disjE; simp add: mrange_of_def M366RANGE_def M365RANGE_def split: if_splits)+
  have "ord2ymd (days_before_year y + i + 1) = (y, month_day (is_leap y) i)"
    using i0 by (rule ord2ymd_yday)
  then show ?thesis
    using month_day_at[OF assms] by (simp add: fromordinal_def toordinal_jan1 add.commute add.left_commute)
qed

lemma mrange_nonneg:
  assumes "1 \<le> m" "m \<le> 12"
  shows "0 \<le> mrange_of lp ! nat (m - 1)" "mrange_of lp ! nat (m - 1) < mrange_of lp ! nat m"
    "mrange_of lp ! nat m \<le> (if lp then 366 else 365)"
  using month_cases[OF assms]
  by (elim disjE; simp add: mrange_of_def M366RANGE_def M365RANGE_def)+

lemma masks_at:
  assumes m: "1 \<le> m" "m \<le> 12"
    and i: "mrange_of lp ! nat (m - 1) \<le> i" "i < mrange_of lp ! nat m"
  shows "mmask_of lp ! nat i = m"
    and "mdaymask_of lp ! nat i = i - mrange_of lp ! nat (m - 1) + 1"
proof -
  define f where "f = mrange_of lp ! nat (m - 1)"
  define j where "j = nat (i - f)"
  have f0: "0 \<le> f" unfolding f_def using m by (rule mrange_nonneg)
  have ij: "nat i = nat f + j" "int j = i - f" using i f0 unfolding j_def f_def by simp_all
  have jl: "int j < mrange_of lp ! nat m - mrange_of lp ! nat (m - 1)"
    using i ij unfolding f_def by simp
  show "mmask_of lp ! nat i = m"
    unfolding ij(1) f_def mmask_of_def
    using jl M365MASK_blk[OF m, of j] M366MASK_blk[OF m, of j]
    by (simp add: mrange_of_def split: if_splits)
  show "mdaymask_of lp ! nat i = i - mrange_of lp ! nat (m - 1) + 1"
    unfolding ij(1) mdaymask_of_def
    using jl MDAY365MASK_blk[OF m, of j] MDAY366MASK_blk[OF m, of j] ij(2)
    by (simp add: mrange_of_def f_def split: if_splits)
qed

lemma length_WDAYMASK: "length WDAYMASK = 385"
  by (simp add: WDAYMASK_def length_concat sum_list_replicate)

lemma wdaymask_nth:
  assumes "0 \<le> w0" "w0 < 7" "0 \<le> b" "b < 378"
  shows "getitem (drop (nat w0) WDAYMASK) b = (w0 + b) mod 7"
proof -
  have "getitem (drop (nat w0) WDAYMASK) b = WDAYMASK ! (nat w0 + nat b)"
    using assms by (simp add: getitem_def length_WDAYMASK)
  also have "\<dots> = int (nat w0 + nat b) mod 7"
    by (rule WDAYMASK_nth) (use assms in linarith)
  finally show ?thesis using assms by simp
qed

lemma rebuild_fields:
  "yearlen (rebuild rr y) = (if is_leap y then 366 else 365)"
  "yearordinal (rebuild rr y) = toordinal (Date y 1 1)"
  "mmask (rebuild rr y) = mmask_of (is_leap y)"
  "mdaymask (rebuild rr y) = mdaymask_of (is_leap y)"
  "mrange (rebuild rr y) = mrange_of (is_leap y)"
  by (simp_all add: rebuild_def Let_def isleap_eq mmask_of_def mdaymask_of_def mrange_of_def)

lemma rebuild_nwdaymask_None:
  "rr_bynweekday rr = None \<Longrightarrow> nwdaymask (rebuild rr y) = None"
  by (simp add: rebuild_def Let_def)

lemma nwday_pos_eq:
  assumes w: "0 \<le> w0" "w0 < 7"
    and b: "0 \<le> (if n < 0 then lst + (n + 1) * 7 else first + (n - 1) * 7)"
           "(if n < 0 then lst + (n + 1) * 7 else first + (n - 1) * 7) < 378"
  shows "nwday_pos (drop (nat w0) WDAYMASK) first lst wd n = nth_wday_index first lst w0 wd n"
proof (cases "n < 0")
  case True
  then have "getitem (drop (nat w0) WDAYMASK) (lst + (n + 1) * 7)
                = (w0 + (lst + (n + 1) * 7)) mod 7"
    using b w by (intro wdaymask_nth) simp_all
  then show ?thesis using True unfolding nwday_pos_def nth_wday_index_def Let_def by simp
next
  case False
  then have "getitem (drop (nat w0) WDAYMASK) (first + (n - 1) * 7)
                = (w0 + (first + (n - 1) * 7)) mod 7"
    using b w by (intro wdaymask_nth) simp_all
  then show ?thesis using False unfolding nwday_pos_def nth_wday_index_def Let_def by simp
qed

lemma rebuild_nwdaymask:
  assumes rr: "rr_bymonth rr = Some m" "rr_bynweekday rr = Some (wd, n)"
    and m: "1 \<le> m" "m \<le> 12"
    and f: "first = mrange_of (is_leap y) ! nat (m - 1)"
    and l: "lst = mrange_of (is_leap y) ! nat m - 1"
    and b: "0 \<le> (if n < 0 then lst + (n + 1) * 7 else first + (n - 1) * 7)"
           "(if n < 0 then lst + (n + 1) * 7 else first + (n - 1) * 7) < 378"
    and i0: "i0 = nth_wday_index first lst (weekday (Date y 1 1)) wd n"
  shows "nwdaymask (rebuild rr y) =
         Some (if first \<le> i0 \<and> i0 \<le> lst
               then (replicate (if is_leap y then 366 else 365) 0)[nat i0 := 1]
               else replicate (if is_leap y then 366 else 365) 0)"
proof -
  define w0 where "w0 = weekday (Date y 1 1)"
  have w: "0 \<le> w0" "w0 < 7" unfolding w0_def weekday_def by simp_all
  define mr where "mr = mrange_of (is_leap y)"
  have g1: "getitem mr (m - 1) = first" "getitem mr m = lst + 1"
    using m f l unfolding mr_def by (simp_all add: getitem_def)
  have pos: "nwday_pos (drop (nat w0) WDAYMASK) first lst wd n = i0"
    unfolding i0 w0_def[symmetric] using w b by (rule nwday_pos_eq)
  have mk: "mark_nwday (drop (nat w0) WDAYMASK) wd n (getitem mr (m - 1), getitem mr m) msk
       = (if first \<le> i0 \<and> i0 \<le> lst then msk[nat i0 := 1] else msk)" for msk
    unfolding mark_nwday_def by (simp add: g1 pos Let_def)
  have mr': "(if 365 + (if isleap y then 1 else 0) = (365::int) then M365RANGE else M366RANGE)
            = mr"
    by (simp add: mr_def mrange_of_def isleap_eq)
  have yl: "nat (365 + (if isleap y then 1 else 0)) = (if is_leap y then 366 else 365)"
    by (simp add: isleap_eq)
  show ?thesis
    unfolding rebuild_def Let_def mr' w0_def[symmetric] yl
    by (simp add: rr mk)
qed

lemma year_results_nwd:
  assumes rr: "rr_bymonth rr = Some m" "rr_bynweekday rr = Some (wd, n)"
      "rr_bymonthday rr = None"
    and m: "1 \<le> m" "m \<le> 12"
    and f: "first = mrange_of (is_leap y) ! nat (m - 1)"
    and l: "lst = mrange_of (is_leap y) ! nat m - 1"
    and b: "0 \<le> (if n < 0 then lst + (n + 1) * 7 else first + (n - 1) * 7)"
           "(if n < 0 then lst + (n + 1) * 7 else first + (n - 1) * 7) < 378"
    and i0: "i0 = nth_wday_index first lst (weekday (Date y 1 1)) wd n"
    and rng: "first \<le> i0" "i0 \<le> lst"
  shows "year_results rr y = [Date y m (i0 - first + 1)]"
proof -
  define L :: int where "L = (if is_leap y then 366 else 365)"
  define ii where "ii = rebuild rr y"
  have yl: "yearlen ii = L" and yo: "yearordinal ii = toordinal (Date y 1 1)"
    and mm: "mmask ii = mmask_of (is_leap y)"
    unfolding ii_def L_def by (simp_all add: rebuild_fields)
  have nw: "nwdaymask ii = Some ((replicate (nat L) 0)[nat i0 := 1])"
    unfolding ii_def L_def
    using rebuild_nwdaymask[OF rr(1,2) m f l b i0] rng by (simp split: if_splits)
  have f0: "0 \<le> first" unfolding f using m by (rule mrange_nonneg)
  have lL: "lst < L" unfolding l L_def using mrange_nonneg(3)[OF m, of "is_leap y"] by simp
  have i0b: "0 \<le> i0" "i0 \<le> L - 1" using rng f0 lL by simp_all
  have at: "mmask_of (is_leap y) ! nat i0 = m"
    by (rule masks_at(1)[OF m]) (use rng f l in simp_all)
  have keep: "(\<not> filtered rr ii i) = (i = i0 \<and> mmask_of (is_leap y) ! nat i = m)"
    if "i \<in> set [0..L - 1]" for i
  proof -
    from that have ib: "0 \<le> i" "i < L" by simp_all
    have "getitem ((replicate (nat L) (0::int))[nat i0 := 1]) i = (if i = i0 then 1 else 0)"
      using ib i0b by (auto simp add: getitem_def nth_list_update)
    then show ?thesis
      using ib by (auto simp add: filtered_def rr nw mm getitem_def)
  qed
  have "filter (\<lambda>i. \<not> filtered rr ii i) [0..L - 1]
        = filter (\<lambda>i. i = i0 \<and> mmask_of (is_leap y) ! nat i = m) [0..L - 1]"
    by (rule filter_cong[OF refl]) (rule keep)
  also have "\<dots> = [i0]"
    unfolding filter_upto_single using i0b at by simp
  finally have flt: "filter (\<lambda>i. \<not> filtered rr ii i) [0..yearlen ii - 1] = [i0]"
    unfolding yl .
  have "fromordinal (toordinal (Date y 1 1) + i0) = Date y m (i0 - first + 1)"
    unfolding f by (rule fromordinal_yday[OF m]) (use rng f l in simp_all)
  then show ?thesis
    unfolding year_results_def Let_def ii_def[symmetric] flt yo by simp
qed

lemma year_results_monthday:
  assumes rr: "rr_bymonth rr = Some m" "rr_bynweekday rr = None"
      "rr_bymonthday rr = Some d"
    and m: "1 \<le> m" "m \<le> 12"
    and d: "1 \<le> d" "d \<le> mrange_of (is_leap y) ! nat m - mrange_of (is_leap y) ! nat (m - 1)"
  shows "year_results rr y = [Date y m d]"
proof -
  define lp where "lp = is_leap y"
  define L :: int where "L = (if lp then 366 else 365)"
  define ii where "ii = rebuild rr y"
  define first where "first = mrange_of lp ! nat (m - 1)"
  define i0 where "i0 = first + d - 1"
  have yl: "yearlen ii = L" and yo: "yearordinal ii = toordinal (Date y 1 1)"
    and mm: "mmask ii = mmask_of lp" and mdm: "mdaymask ii = mdaymask_of lp"
    and nw: "nwdaymask ii = None"
    unfolding ii_def L_def lp_def by (simp_all add: rebuild_fields rebuild_nwdaymask_None rr)
  have f0: "0 \<le> first" unfolding first_def using m by (rule mrange_nonneg)
  have rng: "first \<le> i0" "i0 < mrange_of lp ! nat m"
    using d unfolding i0_def first_def lp_def by simp_all
  have lL: "mrange_of lp ! nat m \<le> L" unfolding L_def using m by (rule mrange_nonneg)
  have i0b: "0 \<le> i0" "i0 \<le> L - 1" using rng f0 lL by simp_all
  have at: "mmask_of lp ! nat i0 = m" "mdaymask_of lp ! nat i0 = d"
    using masks_at[OF m, of lp i0] rng unfolding first_def[symmetric] i0_def by simp_all
  have keep: "(\<not> filtered rr ii i) = (i = i0 \<and> True)" if "i \<in> set [0..L - 1]" for i
  proof -
    from that have ib: "0 \<le> i" "i < L" by simp_all
    obtain m' d' where md: "month_day lp i = (m', d')" by force
    from month_day_range[OF ib(1) ib(2)[unfolded L_def] md]
    have r: "1 \<le> m'" "m' \<le> 12" "mrange_of lp ! nat (m' - 1) \<le> i" "i < mrange_of lp ! nat m'"
      by simp_all
    have a: "mmask_of lp ! nat i = m'"
      "mdaymask_of lp ! nat i = i - mrange_of lp ! nat (m' - 1) + 1"
      using masks_at[OF r] by simp_all
    have "(mmask_of lp ! nat i = m \<and> mdaymask_of lp ! nat i = d) = (i = i0)"
    proof
      assume H: "mmask_of lp ! nat i = m \<and> mdaymask_of lp ! nat i = d"
      from H a(1) have e: "m' = m" by simp
      from H a(2) have "i - mrange_of lp ! nat (m' - 1) + 1 = d" by simp
      with e show "i = i0" unfolding i0_def first_def by simp
    next
      assume "i = i0"
      then show "mmask_of lp ! nat i = m \<and> mdaymask_of lp ! nat i = d" using at by simp
    qed
    then show ?thesis
      using ib by (auto simp add: filtered_def rr nw mm mdm getitem_def)
  qed
  have "filter (\<lambda>i. \<not> filtered rr ii i) [0..L - 1] = filter (\<lambda>i. i = i0 \<and> True) [0..L - 1]"
    by (rule filter_cong[OF refl]) (rule keep)
  also have "\<dots> = [i0]"
    unfolding filter_upto_single using i0b by simp
  finally have flt: "filter (\<lambda>i. \<not> filtered rr ii i) [0..yearlen ii - 1] = [i0]"
    unfolding yl .
  have "fromordinal (toordinal (Date y 1 1) + i0) = Date y m (i0 - first + 1)"
    unfolding first_def lp_def
    by (rule fromordinal_yday[OF m]) (use rng in \<open>simp_all add: first_def lp_def\<close>)
  then show ?thesis
    unfolding year_results_def Let_def ii_def[symmetric] flt yo by (simp add: i0_def)
qed

section \<open>What a rule yields over the years\<close>

lemma rrule_iter_step:
  assumes "rr_until rr = None" "year_results rr y = [d]" "date_le (rr_dtstart rr) d"
  shows "rrule_iter rr (Some c) y =
         (if c - 1 < 0 then [] else if y + 1 > MAXYEAR then [d]
          else d # rrule_iter rr (Some (c - 1)) (y + 1))"
  by (subst rrule_iter.simps) (simp add: assms)

lemma rrule_iter_seq:
  assumes u: "rr_until rr = None"
    and occ: "\<And>y'. y \<le> y' \<Longrightarrow> y' \<le> MAXYEAR \<Longrightarrow>
                year_results rr y' = [occ y'] \<and> date_le (rr_dtstart rr) (occ y')"
    and c: "0 \<le> c" and y: "y \<le> MAXYEAR"
  shows "rrule_iter rr (Some c) y = map occ [y..min (y + c - 1) MAXYEAR]"
  using occ c y
proof (induction "nat (MAXYEAR - y)" arbitrary: y c)
  case 0
  then have y: "y = MAXYEAR" by simp
  have yr: "year_results rr y = [occ y]" "date_le (rr_dtstart rr) (occ y)"
    using "0.prems"(1)[of y] y by simp_all
  have st: "rrule_iter rr (Some c) y = (if c - 1 < 0 then [] else [occ y])"
    unfolding rrule_iter_step[OF u yr] using y by simp
  show ?case
  proof (cases "c = 0")
    case True
    then show ?thesis unfolding st by simp
  next
    case False
    then have "0 < c" using "0.prems"(2) by simp
    moreover from this have "min (y + c - 1) MAXYEAR = y" using y by simp
    ultimately show ?thesis unfolding st by simp
  qed
next
  case (Suc k)
  then have ylt: "y < MAXYEAR" by simp
  have yr: "year_results rr y = [occ y]" "date_le (rr_dtstart rr) (occ y)"
    using Suc.prems(1)[of y] ylt by simp_all
  have st: "rrule_iter rr (Some c) y =
       (if c - 1 < 0 then [] else occ y # rrule_iter rr (Some (c - 1)) (y + 1))"
    unfolding rrule_iter_step[OF u yr] using ylt by simp
  show ?case
  proof (cases "c = 0")
    case True
    then show ?thesis unfolding st by simp
  next
    case False
    then have cpos: "0 < c" using Suc.prems(2) by simp
    have k: "k = nat (MAXYEAR - (y + 1))" using Suc.hyps(2) by simp
    have IH: "rrule_iter rr (Some (c - 1)) (y + 1)
              = map occ [y + 1..min (y + 1 + (c - 1) - 1) MAXYEAR]"
      by (rule Suc.hyps(1)[OF k]) (use Suc.prems ylt cpos in auto)
    have "[y..min (y + c - 1) MAXYEAR] = y # [y + 1..min (y + c - 1) MAXYEAR]"
      using ylt cpos by (simp add: upto_rec1)
    then show ?thesis unfolding st IH using cpos by simp
  qed
qed

lemma rrule_iter_skip:
  assumes "rr_until rr = None" "year_results rr y = [d]" "\<not> date_le (rr_dtstart rr) d"
  shows "rrule_iter rr count y = (if y + 1 > MAXYEAR then [] else rrule_iter rr count (y + 1))"
  by (subst rrule_iter.simps) (simp add: assms)

lemma month_len:
  assumes "1 \<le> m" "m \<le> 12"
  shows "28 \<le> mrange_of lp ! nat m - mrange_of lp ! nat (m - 1)"
    "mrange_of lp ! nat m - mrange_of lp ! nat (m - 1) \<le> 31"
  using month_cases[OF assms]
  by (elim disjE; simp add: mrange_of_def M366RANGE_def M365RANGE_def)+

lemma nth_wday_index_range:
  assumes m: "1 \<le> m" "m \<le> 12"
    and n: "(1 \<le> n \<and> n \<le> 4) \<or> (- 4 \<le> n \<and> n \<le> - 1)"
    and f: "first = mrange_of lp ! nat (m - 1)"
    and l: "lst = mrange_of lp ! nat m - 1"
  shows "0 \<le> (if n < 0 then lst + (n + 1) * 7 else first + (n - 1) * 7)"
    and "(if n < 0 then lst + (n + 1) * 7 else first + (n - 1) * 7) < 378"
    and "first \<le> nth_wday_index first lst w0 wd n"
    and "nth_wday_index first lst w0 wd n \<le> lst"
proof -
  have f0: "0 \<le> first" unfolding f using m by (rule mrange_nonneg)
  have lL: "lst < 366" unfolding l using mrange_nonneg(3)[OF m, of lp] by (simp split: if_splits)
  have len: "first + 27 \<le> lst" unfolding f l using month_len(1)[OF m, of lp] by simp
  show "0 \<le> (if n < 0 then lst + (n + 1) * 7 else first + (n - 1) * 7)"
    using n f0 len by auto
  show "(if n < 0 then lst + (n + 1) * 7 else first + (n - 1) * 7) < 378"
    using n lL len by auto
  have idx: "first \<le> nth_wday_index first lst w0 wd n
             \<and> nth_wday_index first lst w0 wd n \<le> lst"
  proof (cases "n < 0")
    case True
    define b where "b = lst + (n + 1) * 7"
    define r where "r = ((w0 + b) mod 7 - wd) mod 7"
    have r: "0 \<le> r" "r \<le> 6" unfolding r_def by simp_all
    have e: "nth_wday_index first lst w0 wd n = b - r"
      using True by (simp only: nth_wday_index_def Let_def if_True b_def r_def)
    have nb: "- 4 \<le> n" "n \<le> - 1" using n True by auto
    have "first \<le> b - r" using r nb len unfolding b_def by simp
    moreover have "b - r \<le> lst" using r nb len unfolding b_def by simp
    ultimately show ?thesis unfolding e by simp
  next
    case False
    define b where "b = first + (n - 1) * 7"
    define r where "r = (7 - (w0 + b) mod 7 + wd) mod 7"
    have r: "0 \<le> r" "r \<le> 6" unfolding r_def by simp_all
    have e: "nth_wday_index first lst w0 wd n = b + r"
      using False by (simp only: nth_wday_index_def Let_def if_False b_def r_def)
    have nb: "1 \<le> n" "n \<le> 4" using n False by auto
    have "first \<le> b + r" using r nb len unfolding b_def by simp
    moreover have "b + r \<le> lst" using r nb len unfolding b_def by simp
    ultimately show ?thesis unfolding e by simp
  qed
  show "first \<le> nth_wday_index first lst w0 wd n" using idx by simp
  show "nth_wday_index first lst w0 wd n \<le> lst" using idx by simp
qed

lemma year_results_nth_weekday:
  assumes rr: "rr_bymonth rr = Some m" "rr_bynweekday rr = Some (wd, n)"
      "rr_bymonthday rr = None"
    and m: "1 \<le> m" "m \<le> 12"
    and n: "(1 \<le> n \<and> n \<le> 4) \<or> (- 4 \<le> n \<and> n \<le> - 1)"
  shows "year_results rr y = [nth_weekday_date y m wd n]"
proof -
  define first where "first = mrange_of (is_leap y) ! nat (m - 1)"
  define lst where "lst = mrange_of (is_leap y) ! nat m - 1"
  define i0 where "i0 = nth_wday_index first lst (weekday (Date y 1 1)) wd n"
  note r = nth_wday_index_range[OF m n first_def lst_def]
  have "year_results rr y = [Date y m (i0 - first + 1)]"
    using rr m first_def lst_def r(1,2) i0_def r(3,4)[of "weekday (Date y 1 1)" wd, folded i0_def]
    by (rule year_results_nwd)
  then show ?thesis
    unfolding nth_weekday_date_def Let_def first_def lst_def i0_def .
qed

lemma rrule_list_yearly:
  assumes u: "rr_until rr = None" and cnt: "rr_count rr = Some c" "0 \<le> c"
    and yr: "year (rr_dtstart rr) \<le> MAXYEAR"
    and occ: "\<And>y. year_results rr y = [occ y]"
    and yocc: "\<And>y. year (occ y) = y"
    and y0: "y0 = (if date_le (rr_dtstart rr) (occ (year (rr_dtstart rr)))
                   then year (rr_dtstart rr) else year (rr_dtstart rr) + 1)"
  shows "rrule_list rr = map occ [y0..min (y0 + c - 1) MAXYEAR]"
proof -
  define ys where "ys = year (rr_dtstart rr)"
  have later: "date_le (rr_dtstart rr) (occ y)" if "ys < y" for y
    using that by (simp add: date_le_def yocc ys_def)
  show ?thesis
  proof (cases "date_le (rr_dtstart rr) (occ ys)")
    case True
    then have y0': "y0 = ys" using y0 by (simp add: ys_def)
    have "rrule_iter rr (Some c) ys = map occ [ys..min (ys + c - 1) MAXYEAR]"
    proof (rule rrule_iter_seq[OF u _ cnt(2)])
      fix y' assume "ys \<le> y'" "y' \<le> MAXYEAR"
      then show "year_results rr y' = [occ y'] \<and> date_le (rr_dtstart rr) (occ y')"
        using True later[of y'] occ by (cases "y' = ys") auto
    qed (use yr in \<open>simp add: ys_def\<close>)
    then show ?thesis unfolding rrule_list_def cnt y0' ys_def .
  next
    case False
    then have y0': "y0 = ys + 1" using y0 by (simp add: ys_def)
    have sk: "rrule_iter rr (Some c) ys
              = (if ys + 1 > MAXYEAR then [] else rrule_iter rr (Some c) (ys + 1))"
      using u occ False by (rule rrule_iter_skip)
    show ?thesis
    proof (cases "ys + 1 > MAXYEAR")
      case True
      then show ?thesis unfolding rrule_list_def cnt ys_def[symmetric] sk y0' by simp
    next
      case F: False
      have "rrule_iter rr (Some c) (ys + 1) = map occ [ys + 1..min (ys + 1 + c - 1) MAXYEAR]"
      proof (rule rrule_iter_seq[OF u _ cnt(2)])
        fix y' assume "ys + 1 \<le> y'" "y' \<le> MAXYEAR"
        then show "year_results rr y' = [occ y'] \<and> date_le (rr_dtstart rr) (occ y')"
          using later[of y'] occ by auto
      qed (use F in simp)
      then show ?thesis unfolding rrule_list_def cnt ys_def[symmetric] sk y0' using F by simp
    qed
  qed
qed

lemmas date_eval = nth_weekday_date_def nth_wday_index_def mrange_of_def M366RANGE_def
  M365RANGE_def is_leap_def weekday_def toordinal_def ymd2ord_def days_before_year_def
  days_before_month_def DAYS_BEFORE_MONTH_def Let_def date_le_def date_less_def

section \<open>The claims about the rules and the lookups\<close>

lemma rrule_new_nwd:
  "rrule_new \<lparr>kw_freq = f, kw_bymonth = Some m, kw_byweekday = Some (Wkday wd n),
      kw_bymonthday = None, kw_dtstart = ds, kw_until = u, kw_count = c\<rparr>
   = \<lparr>rr_dtstart = ds, rr_count = c, rr_until = u, rr_bymonth = Some m,
      rr_bymonthday = None, rr_bynweekday = Some (wd, n)\<rparr>"
  by (simp add: rrule_new_def)

lemma irule_neither:
  "kw_freq kw \<noteq> None \<Longrightarrow> kw_until kw = None \<Longrightarrow> kw_count kw = None \<Longrightarrow>
   irule kw = Inl (ValueError ''Must specify either count or until.'')"
  by (auto simp add: irule_def)

text \<open>
  Claim C7. A request with neither bound fails with
  \<open>ValueError ''Must specify either count or until.''\<close> (lemma \<open>irule_neither\<close>).
  A request with both a count and an until bound is not rejected: the guard
  \<open>not ("until" in kwargs or "count" in kwargs)\<close> is false, the inner test for both
  bounds is unreachable, and the rule is handed to \<open>rrule\<close>, which yields dates.  Here the
  Thanksgiving rule with \<open>count = 1\<close> and \<open>until = 2021-01-01\<close> returns one date.
\<close>

theorem irule_both_bounds_returns:
  "irule \<lparr>kw_freq = Some YEARLY, kw_bymonth = Some 11, kw_byweekday = Some (TH 4),
      kw_bymonthday = None, kw_dtstart = Date 2020 1 1, kw_until = Some (Date 2021 1 1),
      kw_count = Some 1\<rparr> = Inr [Date 2020 11 26]"
proof -
  let ?rr = "\<lparr>rr_dtstart = Date 2020 1 1, rr_count = Some 1, rr_until = Some (Date 2021 1 1),
      rr_bymonth = Some 11, rr_bymonthday = None, rr_bynweekday = Some (3, 4)\<rparr>"
  have yr: "year_results ?rr y = [nth_weekday_date y 11 3 4]" for y
    by (rule year_results_nth_weekday) simp_all
  have d20: "nth_weekday_date 2020 11 3 4 = Date 2020 11 26" by (simp add: date_eval)
  have d21: "nth_weekday_date 2021 11 3 4 = Date 2021 11 25" by (simp add: date_eval)
  have s1: "rrule_iter ?rr (Some 0) 2021 = []"
    by (subst rrule_iter.simps) (simp add: yr d21 date_less_def)
  have "rrule_iter ?rr (Some 1) 2020 = [Date 2020 11 26]"
    by (subst rrule_iter.simps) (simp add: yr d20 s1 date_less_def date_le_def MAXYEAR_def)
  then show ?thesis
    by (simp add: irule_def TH_def rrule_new_nwd rrule_list_def)
qed

theorem irule_both_bounds_witness:
  "\<exists>xs. irule \<lparr>kw_freq = Some YEARLY, kw_bymonth = Some 11, kw_byweekday = Some (TH 4),
      kw_bymonthday = None, kw_dtstart = Date 2020 1 1, kw_until = Some (Date 2021 1 1),
      kw_count = Some 1\<rparr> = Inr xs \<and> xs \<noteq> []"
  using irule_both_bounds_returns by simp

lemma nth_weekday_date_sel:
  "year (nth_weekday_date y m wd n) = y" "month (nth_weekday_date y m wd n) = m"
  by (simp_all add: nth_weekday_date_def Let_def)

lemma nth_weekday_date_day:
  assumes m: "1 \<le> m" "m \<le> 12"
    and n: "(1 \<le> n \<and> n \<le> 4) \<or> (- 4 \<le> n \<and> n \<le> - 1)"
  shows "1 \<le> day (nth_weekday_date y m wd n)"
    and "day (nth_weekday_date y m wd n) \<le> days_in_month y m"
proof -
  define first where "first = mrange_of (is_leap y) ! nat (m - 1)"
  define lst where "lst = mrange_of (is_leap y) ! nat m - 1"
  note r = nth_wday_index_range[OF m n first_def lst_def]
  have dim: "days_in_month y m = lst - first + 1"
    unfolding first_def lst_def using month_cases[OF m]
    by (elim disjE)
       (simp_all add: days_in_month_def DAYS_IN_MONTH_def mrange_of_def M366RANGE_def
          M365RANGE_def)
  show "1 \<le> day (nth_weekday_date y m wd n)"
    using r(3)[of "weekday (Date y 1 1)" wd]
    by (simp add: nth_weekday_date_def Let_def first_def lst_def)
  show "day (nth_weekday_date y m wd n) \<le> days_in_month y m"
    unfolding dim using r(4)[of "weekday (Date y 1 1)" wd]
    by (simp add: nth_weekday_date_def Let_def first_def lst_def)
qed

lemma date_le_month_start:
  assumes m: "1 \<le> m" "m \<le> 12"
    and n: "(1 \<le> n \<and> n \<le> 4) \<or> (- 4 \<le> n \<and> n \<le> - 1)"
  shows "date_le (Date y m0 1) (nth_weekday_date y m wd n) = (m0 \<le> m)"
  using nth_weekday_date_day(1)[OF m n, of y wd]
  by (auto simp add: date_le_def nth_weekday_date_sel)

lemma irule_nth_weekday:
  assumes m: "1 \<le> m" "m \<le> 12"
    and n: "(1 \<le> n \<and> n \<le> 4) \<or> (- 4 \<le> n \<and> n \<le> - 1)"
    and c: "0 \<le> c" and y: "y \<le> MAXYEAR"
  shows "irule \<lparr>kw_freq = Some YEARLY, kw_bymonth = Some m, kw_byweekday = Some (Wkday wd n),
            kw_bymonthday = None, kw_dtstart = Date y m0 1, kw_until = None,
            kw_count = Some c\<rparr>
         = Inr (map (\<lambda>y'. nth_weekday_date y' m wd n)
                 [(if m0 \<le> m then y else y + 1)..
                  min ((if m0 \<le> m then y else y + 1) + c - 1) MAXYEAR])"
proof -
  let ?rr = "\<lparr>rr_dtstart = Date y m0 1, rr_count = Some c, rr_until = None,
      rr_bymonth = Some m, rr_bymonthday = None, rr_bynweekday = Some (wd, n)\<rparr>"
  have yr: "year_results ?rr y' = [nth_weekday_date y' m wd n]" for y'
    by (rule year_results_nth_weekday) (use m n in simp_all)
  have "rrule_list ?rr = map (\<lambda>y'. nth_weekday_date y' m wd n)
                 [(if m0 \<le> m then y else y + 1)..
                  min ((if m0 \<le> m then y else y + 1) + c - 1) MAXYEAR]"
    by (rule rrule_list_yearly[where c = c])
       (use c y yr in \<open>simp_all add: nth_weekday_date_sel date_le_month_start[OF m n]\<close>)
  then show ?thesis by (simp add: irule_def rrule_new_nwd)
qed

lemma rrule_new_monthday:
  "rrule_new \<lparr>kw_freq = f, kw_bymonth = Some m, kw_byweekday = None,
      kw_bymonthday = Some d, kw_dtstart = ds, kw_until = u, kw_count = c\<rparr>
   = \<lparr>rr_dtstart = ds, rr_count = c, rr_until = u, rr_bymonth = Some m,
      rr_bymonthday = Some d, rr_bynweekday = None\<rparr>"
  by (simp add: rrule_new_def)

lemma irule_monthday:
  assumes m: "1 \<le> m" "m \<le> 12" and d: "1 \<le> d" "d \<le> 28"
    and c: "0 \<le> c" and y: "y \<le> MAXYEAR"
  shows "irule \<lparr>kw_freq = Some YEARLY, kw_bymonth = Some m, kw_byweekday = None,
            kw_bymonthday = Some d, kw_dtstart = Date y m0 1, kw_until = None,
            kw_count = Some c\<rparr>
         = Inr (map (\<lambda>y'. Date y' m d)
                 [(if m0 \<le> m then y else y + 1)..
                  min ((if m0 \<le> m then y else y + 1) + c - 1) MAXYEAR])"
proof -
  let ?rr = "\<lparr>rr_dtstart = Date y m0 1, rr_count = Some c, rr_until = None,
      rr_bymonth = Some m, rr_bymonthday = Some d, rr_bynweekday = None\<rparr>"
  have yr: "year_results ?rr y' = [Date y' m d]" for y'
    by (rule year_results_monthday) (use m d month_len(1)[OF m, of "is_leap y'"] in simp_all)
  have "rrule_list ?rr = map (\<lambda>y'. Date y' m d)
                 [(if m0 \<le> m then y else y + 1)..
                  min ((if m0 \<le> m then y else y + 1) + c - 1) MAXYEAR]"
    by (rule rrule_list_yearly[where c = c])
       (use c y yr d in \<open>auto simp add: date_le_def\<close>)
  then show ?thesis by (simp add: irule_def rrule_new_monthday)
qed

lemmas rule_defs = thanksgiving_def labor_day_def mlk_day_def memorial_day_def
  independence_day_def fall_start_def fall_break_start_def spring_withdraw_deadline_def
  MO_def TH_def

lemma mod7_cancel:
  fixes x k :: int
  shows "(x + (k - x mod 7)) mod 7 = k mod 7"
proof -
  have e: "x + (k - x mod 7) = k + 7 * (x div 7)"
    using mult_div_mod_eq[of 7 x] by linarith
  show ?thesis unfolding e by (rule mod_mult_self2)
qed

lemma mod7_fwd:
  fixes s b wd :: int
  assumes "0 \<le> wd" "wd < 7"
  shows "(s + (b + (7 - (s mod 7 + b) mod 7 + wd) mod 7)) mod 7 = wd"
proof -
  define x where "x = s + b"
  have t: "(s mod 7 + b) mod 7 = x mod 7" unfolding x_def by (rule mod_add_left_eq)
  have "(s + (b + (7 - x mod 7 + wd) mod 7)) mod 7 = (x + (7 - x mod 7 + wd) mod 7) mod 7"
    unfolding x_def by (simp only: add.assoc)
  also have "\<dots> = (x + (7 - x mod 7 + wd)) mod 7" by (rule mod_add_right_eq)
  also have "x + (7 - x mod 7 + wd) = x + ((7 + wd) - x mod 7)" by simp
  also have "(x + ((7 + wd) - x mod 7)) mod 7 = (7 + wd) mod 7" by (rule mod7_cancel)
  also have "\<dots> = wd" using assms by simp
  finally show ?thesis unfolding t .
qed

lemma mod7_bwd:
  fixes s b wd :: int
  assumes "0 \<le> wd" "wd < 7"
  shows "(s + (b - ((s mod 7 + b) mod 7 - wd) mod 7)) mod 7 = wd"
proof -
  define x where "x = s + b"
  have t: "(s mod 7 + b) mod 7 = x mod 7" unfolding x_def by (rule mod_add_left_eq)
  have "(s + (b - (x mod 7 - wd) mod 7)) mod 7 = (x - (x mod 7 - wd) mod 7) mod 7"
    unfolding x_def by (simp only: add_diff_eq)
  also have "\<dots> = (x - (x mod 7 - wd)) mod 7" by (rule mod_diff_right_eq)
  also have "x - (x mod 7 - wd) = x + (wd - x mod 7)" by simp
  also have "(x + (wd - x mod 7)) mod 7 = wd mod 7" by (rule mod7_cancel)
  also have "\<dots> = wd" using assms by simp
  finally show ?thesis unfolding t .
qed

lemma toordinal_nth_weekday_date:
  assumes m: "1 \<le> m" "m \<le> 12"
  shows "toordinal (nth_weekday_date y m wd n)
         = days_before_year y + 1
           + nth_wday_index (mrange_of (is_leap y) ! nat (m - 1))
               (mrange_of (is_leap y) ! nat m - 1) (weekday (Date y 1 1)) wd n"
  by (simp add: nth_weekday_date_def Let_def toordinal_def ymd2ord_def
        days_before_month_mrange[OF m])

lemma weekday_nth_weekday_date:
  assumes m: "1 \<le> m" "m \<le> 12" and wd: "0 \<le> wd" "wd < 7"
  shows "weekday (nth_weekday_date y m wd n) = wd"
proof -
  define s where "s = days_before_year y + 7"
  define first where "first = mrange_of (is_leap y) ! nat (m - 1)"
  define lst where "lst = mrange_of (is_leap y) ! nat m - 1"
  have w0: "weekday (Date y 1 1) = s mod 7"
    by (simp add: weekday_def toordinal_jan1 s_def)
  have tn: "toordinal (nth_weekday_date y m wd n)
            = days_before_year y + 1 + nth_wday_index first lst (s mod 7) wd n"
    unfolding toordinal_nth_weekday_date[OF m] w0 first_def lst_def ..
  have wk: "weekday (nth_weekday_date y m wd n)
            = (s + nth_wday_index first lst (s mod 7) wd n) mod 7"
    unfolding weekday_def[of "nth_weekday_date y m wd n"] tn
    by (simp add: s_def add.assoc add.left_commute add.commute)
  show ?thesis
  proof (cases "n < 0")
    case True
    have "nth_wday_index first lst (s mod 7) wd n
          = (lst + (n + 1) * 7) - ((s mod 7 + (lst + (n + 1) * 7)) mod 7 - wd) mod 7"
      using True by (simp only: nth_wday_index_def Let_def if_True)
    then show ?thesis unfolding wk using mod7_bwd[OF wd, of s "lst + (n + 1) * 7"] by simp
  next
    case False
    have "nth_wday_index first lst (s mod 7) wd n
          = (first + (n - 1) * 7) + (7 - (s mod 7 + (first + (n - 1) * 7)) mod 7 + wd) mod 7"
      using False by (simp only: nth_wday_index_def Let_def if_False)
    then show ?thesis unfolding wk using mod7_fwd[OF wd, of s "first + (n - 1) * 7"] by simp
  qed
qed

lemma thanksgiving_list:
  assumes "0 \<le> c" "y \<le> MAXYEAR"
  shows "thanksgiving (Date y 8 1) None (Some c)
         = Inr (map (\<lambda>y'. nth_weekday_date y' 11 3 4) [y..min (y + c - 1) MAXYEAR])"
  using irule_nth_weekday[of 11 4 c y 3 8] assms by (simp add: rule_defs)

lemma thanksgiving_fourth_thursday:
  "weekday (nth_weekday_date y 11 3 4) = 3 \<and> month (nth_weekday_date y 11 3 4) = 11
   \<and> year (nth_weekday_date y 11 3 4) = y
   \<and> 22 \<le> day (nth_weekday_date y 11 3 4) \<and> day (nth_weekday_date y 11 3 4) \<le> 28"
proof -
  have "weekday (nth_weekday_date y 11 3 4) = 3"
    by (rule weekday_nth_weekday_date) simp_all
  moreover have "22 \<le> day (nth_weekday_date y 11 3 4) \<and> day (nth_weekday_date y 11 3 4) \<le> 28"
    by (simp add: nth_weekday_date_def nth_wday_index_def Let_def)
  ultimately show ?thesis by (simp add: nth_weekday_date_sel)
qed

text \<open>
  Claim C1. The Thanksgiving rule is built with \<open>TH(4)\<close>, the fourth Thursday of
  November, whereas the docstring of \<open>_thanksgiving\<close> and the claim say the last Thursday.
  In 2012 November has five Thursdays: the rule yields 22 November, and 29 November 2012
  is a later Thursday of the same month.
\<close>

theorem thanksgiving_2012_not_last_thursday:
  "thanksgiving (Date 2012 8 1) None (Some 1) = Inr [Date 2012 11 22]
   \<and> date_new 2012 11 29 = Inr (Date 2012 11 29)
   \<and> weekday (Date 2012 11 29) = 3
   \<and> date_less (Date 2012 11 22) (Date 2012 11 29)"
proof -
  have "thanksgiving (Date 2012 8 1) None (Some 1) = Inr [nth_weekday_date 2012 11 3 4]"
    using thanksgiving_list[of 1 2012] by (simp add: MAXYEAR_def)
  moreover have "nth_weekday_date 2012 11 3 4 = Date 2012 11 22" by (simp add: date_eval)
  moreover have "date_new 2012 11 29 = Inr (Date 2012 11 29)"
    by (simp add: date_new_def MINYEAR_def MAXYEAR_def days_in_month_def DAYS_IN_MONTH_def)
  moreover have "weekday (Date 2012 11 29) = 3" by (simp add: date_eval)
  ultimately show ?thesis by (simp add: date_less_def)
qed

theorem thanksgiving_2012_witness:
  "\<exists>d. thanksgiving (Date 2012 8 1) None (Some 1) = Inr [d] \<and> day d = 22
       \<and> weekday (Date 2012 11 29) = 3"
  using thanksgiving_2012_not_last_thursday by simp

lemma dates_by_tag_NameError: "dates_by_tag self tag = Inl NameError"
  by (simp add: dates_by_tag_def module_globals_def)

lemma get_holiday_unrecognized:
  "getattr (''_'' @ replace (lower holiday) (CHR '' '') (CHR ''_'')) = None \<Longrightarrow>
   get_holiday self holiday ac_year = Inl (ValueError (''Holiday '' @ holiday @ '' not recognized''))"
  by (simp add: get_holiday_def)

text \<open>
  Claim C3. \<open>dates_by_tag\<close> never reaches its tag test: its first statement reads the
  name \<open>term\<close>, which is neither a parameter nor a module global, so every call, with a
  valid or an invalid tag, ends in \<open>NameError\<close> and not in the invalid-tag
  \<open>ValueError\<close> that the else branch builds (and does not raise).  For \<open>get_holiday\<close>
  the claim holds for names with no matching attribute
  (lemma \<open>get_holiday_unrecognized\<close>).
\<close>

theorem dates_by_tag_invalid_tag_NameError:
  "dates_by_tag self ''Sports'' = Inl NameError
   \<and> get_holiday self ''Christmas'' 2020 = Inl (ValueError ''Holiday Christmas not recognized'')"
  by (simp add: dates_by_tag_NameError get_holiday_def lower_def replace_def getattr_def
        object_attrs_def)

theorem dates_by_tag_invalid_tag_witness:
  "\<forall>self. dates_by_tag self ''Sports'' \<noteq> Inr None \<and> dates_by_tag self ''Sports'' = Inl NameError"
  using dates_by_tag_invalid_tag_NameError by simp

lemma upto_single_min: "0 < c \<Longrightarrow> y \<le> M \<Longrightarrow> [y..min (y + c - 1) M] = y # [y + 1..min (y + c - 1) M]"
  by (simp add: upto_rec1)

lemma rule_first:
  assumes "y \<le> MAXYEAR"
  shows "mlk_day (Date y 1 1) None (Some 1) = Inr [nth_weekday_date y 1 0 3]"
    and "memorial_day (Date y 1 1) None (Some 1) = Inr [nth_weekday_date y 3 0 (- 1)]"
    and "independence_day (Date y 1 1) None (Some 1) = Inr [Date y 7 4]"
    and "thanksgiving (Date y 1 1) None (Some 1) = Inr [nth_weekday_date y 11 3 4]"
    and "labor_day (Date y 1 1) None (Some 1) = Inr [nth_weekday_date y 9 0 1]"
  using irule_nth_weekday[of 1 3 1 y 0 1] irule_nth_weekday[of 3 "- 1" 1 y 0 1]
    irule_monthday[of 7 4 1 y 1] irule_nth_weekday[of 11 4 1 y 3 1]
    irule_nth_weekday[of 9 1 1 y 0 1] assms
  by (simp_all add: rule_defs)

lemma date_new_jan1: "1 \<le> y \<Longrightarrow> y \<le> 9999 \<Longrightarrow> date_new y 1 1 = Inr (Date y 1 1)"
  by (simp add: date_new_def MINYEAR_def MAXYEAR_def days_in_month_def DAYS_IN_MONTH_def)

text \<open>
  Claim C4. For an academic year \<open>Y\<close> whose two calendar years are representable
  (\<open>1 \<le> Y\<close> and \<open>Y + 1 \<le> 9999\<close>), \<open>get_holiday\<close> evaluates the MLK Day, Memorial Day
  and Independence Day rules from 1 January of \<open>Y + 1\<close> and the Thanksgiving and Labor Day
  rules from 1 January of \<open>Y\<close>; the date returned lies in that calendar year.
\<close>

theorem get_holiday_year_shift:
  assumes "1 \<le> Y" "Y + 1 \<le> 9999"
  shows "get_holiday self ''MLK Day'' Y = Inr (nth_weekday_date (Y + 1) 1 0 3)
     \<and> get_holiday self ''Memorial Day'' Y = Inr (nth_weekday_date (Y + 1) 3 0 (- 1))
     \<and> get_holiday self ''Independence Day'' Y = Inr (Date (Y + 1) 7 4)
     \<and> get_holiday self ''Thanksgiving'' Y = Inr (nth_weekday_date Y 11 3 4)
     \<and> get_holiday self ''Labor Day'' Y = Inr (nth_weekday_date Y 9 0 1)
     \<and> year (nth_weekday_date (Y + 1) 1 0 3) = Y + 1 \<and> month (nth_weekday_date (Y + 1) 1 0 3) = 1
     \<and> year (nth_weekday_date (Y + 1) 3 0 (- 1)) = Y + 1
     \<and> year (nth_weekday_date Y 11 3 4) = Y \<and> month (nth_weekday_date Y 11 3 4) = 11
     \<and> year (nth_weekday_date Y 9 0 1) = Y \<and> month (nth_weekday_date Y 9 0 1) = 9"
proof -
  have y: "Y \<le> MAXYEAR" "Y + 1 \<le> MAXYEAR" using assms by (simp_all add: MAXYEAR_def)
  have d: "date_new Y 1 1 = Inr (Date Y 1 1)" "date_new (Y + 1) 1 1 = Inr (Date (Y + 1) 1 1)"
    using assms by (simp_all add: date_new_jan1)
  show ?thesis
    by (simp add: get_holiday_def lower_def replace_def getattr_def rbind_def d
          rule_first[OF y(1)] rule_first[OF y(2)] nth_weekday_date_sel)
qed

theorem get_holiday_year_shift_witness:
  "\<forall>self. get_holiday self ''MLK Day'' 2020 = Inr (Date 2021 1 18)
   \<and> get_holiday self ''Labor Day'' 2020 = Inr (Date 2020 9 7)
   \<and> get_holiday self ''Memorial Day'' 2020 = Inr (Date 2021 3 29)
   \<and> get_holiday self ''Independence Day'' 2020 = Inr (Date 2021 7 4)
   \<and> get_holiday self ''Thanksgiving'' 2020 = Inr (Date 2020 11 26)"
proof -
  have "nth_weekday_date 2021 1 0 3 = Date 2021 1 18" by (simp add: date_eval)
  moreover have "nth_weekday_date 2020 9 0 1 = Date 2020 9 7" by (simp add: date_eval)
  moreover have "nth_weekday_date 2021 3 0 (- 1) = Date 2021 3 29" by (simp add: date_eval)
  moreover have "nth_weekday_date 2020 11 3 4 = Date 2020 11 26" by (simp add: date_eval)
  ultimately show ?thesis using get_holiday_year_shift[of 2020] by simp
qed

lemma py_round_hundreds_term:
  assumes "0 \<le> s" "s < 50"
  shows "py_round_hundreds (y * 100 + s) div 100 = y"
proof -
  have "(y * 100 + s) div 100 = y" "(y * 100 + s) mod 100 = s" using assms by simp_all
  then show ?thesis using assms by (simp add: py_round_hundreds_def Let_def)
qed

text \<open>
  Claim C8. \<open>date_in_term\<close> uses only the year obtained by rounding the term code to the
  nearest hundred, so the semester codes 10, 20 and 30 of one year give the same result,
  a date or the same \<open>KeyError\<close>.
\<close>

theorem date_in_term_ignores_semester:
  assumes "s1 \<in> {10, 20, 30}" "s2 \<in> {10, 20, 30}"
  shows "date_in_term self (y * 100 + s1) field = date_in_term self (y * 100 + s2) field"
proof -
  have "py_round_hundreds (y * 100 + s1) div 100 = y"
    by (rule py_round_hundreds_term) (use assms in auto)
  moreover have "py_round_hundreds (y * 100 + s2) div 100 = y"
    by (rule py_round_hundreds_term) (use assms in auto)
  ultimately show ?thesis by (simp add: date_in_term_def)
qed

theorem date_in_term_ignores_semester_witness:
  "\<forall>self field. date_in_term self 202010 field = date_in_term self 202020 field
      \<and> date_in_term self 202020 field = date_in_term self 202030 field"
  using date_in_term_ignores_semester[of 10 20 _ 2020] date_in_term_ignores_semester[of 20 30 _ 2020]
  by simp

section \<open>The constructor\<close>

lemma toordinal_fromordinal: "toordinal (fromordinal n) = n"
  using ymd2ord_ord2ymd[of n] by (simp add: toordinal_def fromordinal_def split: prod.splits)

lemma date_add_ok:
  "0 < toordinal d + k \<Longrightarrow> toordinal d + k \<le> 3652059 \<Longrightarrow>
   date_add d k = Inr (fromordinal (toordinal d + k))"
  by (simp add: date_add_def Let_def MAXORDINAL_def)

lemma add_days_ok:
  "0 < toordinal d + k \<Longrightarrow> toordinal d + k \<le> 3652059 \<Longrightarrow>
   add_days d (IntDays k) = Inr (fromordinal (toordinal d + k))"
  "0 < toordinal d + k \<Longrightarrow> toordinal d + k \<le> 3652059 \<Longrightarrow>
   add_days d (TimedeltaDays k) = Inr (fromordinal (toordinal d + k))"
  by (simp_all add: add_days_def timedelta_def date_add_ok)

lemma year_dates_ok:
  assumes its: "it_fall_start its = fs # r1" "it_fall_break_start its = fb # r2"
      "it_thanksgiving its = tg # r3" "it_labor_day its = ld # r4"
      "it_spring_withdraw its = sw # r5" "it_independence_day its = ind # r6"
    and b: "0 < toordinal fs" "toordinal fs + 266 \<le> 3652059"
      "0 < toordinal fb" "toordinal fb + 2 \<le> 3652059"
      "1 < toordinal tg" "toordinal tg + 1 \<le> 3652059"
  shows "year_dates yr its =
         Inr (year_map yr fs fb tg ld sw ind,
              its\<lparr>it_fall_start := r1, it_fall_break_start := r2, it_thanksgiving := r3,
                  it_labor_day := r4, it_spring_withdraw := r5, it_independence_day := r6\<rparr>)"
  using b
  by (simp add: year_dates_def year_map_def Let_def rbind_def next_iter_def its
        term_length_def xmas_break_def sum_term_length_def timedelta_def
        date_add_ok add_days_ok toordinal_fromordinal add.commute)

lemma dby_bounds:
  assumes "1 \<le> y" "y \<le> 9998"
  shows "0 \<le> days_before_year y" "days_before_year y \<le> 3651404"
proof -
  define Y where "Y = y - 1"
  have Y: "0 \<le> Y" "Y \<le> 9997" using assms by (simp_all add: Y_def)
  have a: "Y div 100 \<le> Y div 4" using Y(1) by (intro zdiv_mono2) simp_all
  have b: "Y div 400 \<le> Y div 100" using Y(1) by (intro zdiv_mono2) simp_all
  have c: "Y div 4 \<le> 9997 div 4" using Y(2) by (intro zdiv_mono1) simp_all
  have d: "0 \<le> Y div 400" using Y(1) by simp
  have e: "days_before_year y = Y * 365 + Y div 4 - Y div 100 + Y div 400"
    by (simp add: days_before_year_def Y_def Let_def)
  show "0 \<le> days_before_year y" unfolding e using a d Y by linarith
  show "days_before_year y \<le> 3651404" unfolding e using b c Y by simp
qed

lemma mrange_ge_31:
  assumes "2 \<le> m" "m \<le> 12"
  shows "31 \<le> mrange_of lp ! nat (m - 1)"
proof -
  have "1 \<le> m" using assms by simp
  from month_cases[OF this assms(2)] assms(1) show ?thesis
    by (elim disjE; simp add: mrange_of_def M366RANGE_def M365RANGE_def)
qed

lemma toordinal_nwd_bounds:
  assumes m: "2 \<le> m" "m \<le> 12"
    and n: "(1 \<le> n \<and> n \<le> 4) \<or> (- 4 \<le> n \<and> n \<le> - 1)"
    and y: "1 \<le> y" "y \<le> 9998"
  shows "1 < toordinal (nth_weekday_date y m wd n)"
    and "toordinal (nth_weekday_date y m wd n) + 266 \<le> 3652059"
proof -
  have m1: "1 \<le> m" using m by simp
  define first where "first = mrange_of (is_leap y) ! nat (m - 1)"
  define lst where "lst = mrange_of (is_leap y) ! nat m - 1"
  define i0 where "i0 = nth_wday_index first lst (weekday (Date y 1 1)) wd n"
  note r = nth_wday_index_range[OF m1 m(2) n first_def lst_def]
  have r3: "first \<le> i0" unfolding i0_def by (rule r(3))
  have r4: "i0 \<le> lst" unfolding i0_def by (rule r(4))
  have t: "toordinal (nth_weekday_date y m wd n) = days_before_year y + 1 + i0"
    unfolding toordinal_nth_weekday_date[OF m1 m(2)] i0_def first_def lst_def ..
  have f0: "31 \<le> first" unfolding first_def using m by (rule mrange_ge_31)
  have lL: "lst < 366" unfolding lst_def
    using mrange_nonneg(3)[OF m1 m(2), of "is_leap y"] by (simp split: if_splits)
  show "1 < toordinal (nth_weekday_date y m wd n)"
    unfolding t using dby_bounds(1)[OF y] r3 f0 by simp
  show "toordinal (nth_weekday_date y m wd n) + 266 \<le> 3652059"
    unfolding t using dby_bounds(2)[OF y] r4 lL by simp
qed

lemma map_upto_Cons: "a \<le> b \<Longrightarrow> map f [a..b] = f a # map f [a + 1..b]"
  by (simp add: upto_rec1)

lemma year_loop_ok:
  assumes y: "1 \<le> y" "ey \<le> 9999"
    and its: "it_fall_start its = map (\<lambda>k. nth_weekday_date k 8 0 (- 2)) [y..ey - 1]"
      "it_fall_break_start its = map (\<lambda>k. nth_weekday_date k 10 0 (- 2)) [y..ey - 1]"
      "it_thanksgiving its = map (\<lambda>k. nth_weekday_date k 11 3 4) [y..ey - 1]"
      "it_labor_day its = map (\<lambda>k. nth_weekday_date k 9 0 1) [y..ey - 1]"
      "it_spring_withdraw its = map (\<lambda>k. nth_weekday_date k 3 0 3) [y + 1..ey]"
      "it_independence_day its = map (\<lambda>k. Date k 7 4) [y + 1..ey]"
  shows "year_loop [y..ey - 1] its ds
         = Inr (\<lambda>k. if y \<le> k \<and> k < ey then Some (stored_dates k) else ds k)"
  using y its
proof (induction "nat (ey - y)" arbitrary: y its ds)
  case 0
  then have "[y..ey - 1] = []" by simp
  moreover have "(\<lambda>k. if y \<le> k \<and> k < ey then Some (stored_dates k) else ds k) = ds"
    using 0 by (intro ext) auto
  ultimately show ?case by simp
next
  case (Suc n)
  then have lt: "y < ey" by simp
  then have le: "y \<le> ey - 1" "y + 1 \<le> ey" by simp_all
  have y98: "y \<le> 9998" using lt Suc.prems(2) by simp
  define its' where "its' = its\<lparr>it_fall_start := map (\<lambda>k. nth_weekday_date k 8 0 (- 2)) [y + 1..ey - 1],
      it_fall_break_start := map (\<lambda>k. nth_weekday_date k 10 0 (- 2)) [y + 1..ey - 1],
      it_thanksgiving := map (\<lambda>k. nth_weekday_date k 11 3 4) [y + 1..ey - 1],
      it_labor_day := map (\<lambda>k. nth_weekday_date k 9 0 1) [y + 1..ey - 1],
      it_spring_withdraw := map (\<lambda>k. nth_weekday_date k 3 0 3) [y + 1 + 1..ey],
      it_independence_day := map (\<lambda>k. Date k 7 4) [y + 1 + 1..ey]\<rparr>"
  have yd: "year_dates y its = Inr (stored_dates y, its')"
    unfolding stored_dates_def its'_def
  proof (rule year_dates_ok)
    show "it_fall_start its = nth_weekday_date y 8 0 (- 2)
            # map (\<lambda>k. nth_weekday_date k 8 0 (- 2)) [y + 1..ey - 1]"
      unfolding Suc.prems(3) using le(1) by (rule map_upto_Cons)
    show "it_fall_break_start its = nth_weekday_date y 10 0 (- 2)
            # map (\<lambda>k. nth_weekday_date k 10 0 (- 2)) [y + 1..ey - 1]"
      unfolding Suc.prems(4) using le(1) by (rule map_upto_Cons)
    show "it_thanksgiving its = nth_weekday_date y 11 3 4
            # map (\<lambda>k. nth_weekday_date k 11 3 4) [y + 1..ey - 1]"
      unfolding Suc.prems(5) using le(1) by (rule map_upto_Cons)
    show "it_labor_day its = nth_weekday_date y 9 0 1
            # map (\<lambda>k. nth_weekday_date k 9 0 1) [y + 1..ey - 1]"
      unfolding Suc.prems(6) using le(1) by (rule map_upto_Cons)
    show "it_spring_withdraw its = nth_weekday_date (y + 1) 3 0 3
            # map (\<lambda>k. nth_weekday_date k 3 0 3) [y + 1 + 1..ey]"
      unfolding Suc.prems(7) using le(2) by (rule map_upto_Cons)
    show "it_independence_day its = Date (y + 1) 7 4 # map (\<lambda>k. Date k 7 4) [y + 1 + 1..ey]"
      unfolding Suc.prems(8) using le(2) by (rule map_upto_Cons)
    show "0 < toordinal (nth_weekday_date y 8 0 (- 2))"
      using toordinal_nwd_bounds(1)[of 8 "- 2" y 0] Suc.prems(1) y98 by simp
    show "toordinal (nth_weekday_date y 8 0 (- 2)) + 266 \<le> 3652059"
      using toordinal_nwd_bounds(2)[of 8 "- 2" y 0] Suc.prems(1) y98 by simp
    show "0 < toordinal (nth_weekday_date y 10 0 (- 2))"
      using toordinal_nwd_bounds(1)[of 10 "- 2" y 0] Suc.prems(1) y98 by simp
    show "toordinal (nth_weekday_date y 10 0 (- 2)) + 2 \<le> 3652059"
      using toordinal_nwd_bounds(2)[of 10 "- 2" y 0] Suc.prems(1) y98 by simp
    show "1 < toordinal (nth_weekday_date y 11 3 4)"
      using toordinal_nwd_bounds(1)[of 11 4 y 3] Suc.prems(1) y98 by simp
    show "toordinal (nth_weekday_date y 11 3 4) + 1 \<le> 3652059"
      using toordinal_nwd_bounds(2)[of 11 4 y 3] Suc.prems(1) y98 by simp
  qed
  have n: "n = nat (ey - (y + 1))" using Suc.hyps(2) by simp
  have IH: "year_loop [y + 1..ey - 1] its' (ds(y \<mapsto> stored_dates y))
        = Inr (\<lambda>k. if y + 1 \<le> k \<and> k < ey then Some (stored_dates k)
                    else (ds(y \<mapsto> stored_dates y)) k)"
    by (rule Suc.hyps(1)[OF n]) (use Suc.prems(1,2) in \<open>simp_all add: its'_def\<close>)
  have f: "(\<lambda>k. if y + 1 \<le> k \<and> k < ey then Some (stored_dates k)
                    else (ds(y \<mapsto> stored_dates y)) k)
         = (\<lambda>k. if y \<le> k \<and> k < ey then Some (stored_dates k) else ds k)"
    using lt by (intro ext) auto
  have "[y..ey - 1] = y # [y + 1..ey - 1]" using le(1) by (simp add: upto_rec1)
  then show ?case by (simp add: yd rbind_def IH f)
qed

lemma length_upto_int: "int (length [a..b]) = (if a \<le> b then b - a + 1 else 0)"
  by simp

lemma upto_fall:
  assumes "ey \<le> 9999" "n = int (length [sy..ey - 1])"
  shows "[sy..min (sy + n - 1) MAXYEAR] = [sy..ey - 1]"
  using assms by (auto simp add: MAXYEAR_def min_def)

lemma upto_spring:
  assumes "ey \<le> 9999" "n = int (length [sy..ey - 1])"
  shows "[sy + 1..min (sy + 1 + n - 1) MAXYEAR] = [sy + 1..ey]"
  using assms by (auto simp add: MAXYEAR_def min_def)

lemma rules_from_august:
  assumes sy: "sy \<le> 9999" and ey: "ey \<le> 9999" and n: "n = int (length [sy..ey - 1])"
  shows "fall_start (Date sy 8 1) None (Some n)
           = Inr (map (\<lambda>k. nth_weekday_date k 8 0 (- 2)) [sy..ey - 1])"
    and "fall_break_start (Date sy 8 1) None (Some n)
           = Inr (map (\<lambda>k. nth_weekday_date k 10 0 (- 2)) [sy..ey - 1])"
    and "thanksgiving (Date sy 8 1) None (Some n)
           = Inr (map (\<lambda>k. nth_weekday_date k 11 3 4) [sy..ey - 1])"
    and "labor_day (Date sy 8 1) None (Some n)
           = Inr (map (\<lambda>k. nth_weekday_date k 9 0 1) [sy..ey - 1])"
    and "spring_withdraw_deadline (Date sy 8 1) None (Some n)
           = Inr (map (\<lambda>k. nth_weekday_date k 3 0 3) [sy + 1..ey])"
    and "independence_day (Date sy 8 1) None (Some n)
           = Inr (map (\<lambda>k. Date k 7 4) [sy + 1..ey])"
    and "mlk_day (Date sy 8 1) None (Some n)
           = Inr (map (\<lambda>k. nth_weekday_date k 1 0 3) [sy + 1..ey])"
    and "memorial_day (Date sy 8 1) None (Some n)
           = Inr (map (\<lambda>k. nth_weekday_date k 3 0 (- 1)) [sy + 1..ey])"
proof -
  have n0: "0 \<le> n" using n by simp
  have y: "sy \<le> MAXYEAR" using sy by (simp add: MAXYEAR_def)
  note f = upto_fall[OF ey n] and s = upto_spring[OF ey n]
  show "fall_start (Date sy 8 1) None (Some n)
           = Inr (map (\<lambda>k. nth_weekday_date k 8 0 (- 2)) [sy..ey - 1])"
    using irule_nth_weekday[of 8 "- 2" n sy 0 8] n0 y f by (simp add: rule_defs)
  show "fall_break_start (Date sy 8 1) None (Some n)
           = Inr (map (\<lambda>k. nth_weekday_date k 10 0 (- 2)) [sy..ey - 1])"
    using irule_nth_weekday[of 10 "- 2" n sy 0 8] n0 y f by (simp add: rule_defs)
  show "thanksgiving (Date sy 8 1) None (Some n)
           = Inr (map (\<lambda>k. nth_weekday_date k 11 3 4) [sy..ey - 1])"
    using irule_nth_weekday[of 11 4 n sy 3 8] n0 y f by (simp add: rule_defs)
  show "labor_day (Date sy 8 1) None (Some n)
           = Inr (map (\<lambda>k. nth_weekday_date k 9 0 1) [sy..ey - 1])"
    using irule_nth_weekday[of 9 1 n sy 0 8] n0 y f by (simp add: rule_defs)
  show "spring_withdraw_deadline (Date sy 8 1) None (Some n)
           = Inr (map (\<lambda>k. nth_weekday_date k 3 0 3) [sy + 1..ey])"
    using irule_nth_weekday[of 3 3 n sy 0 8] n0 y s by (simp add: rule_defs)
  show "independence_day (Date sy 8 1) None (Some n)
           = Inr (map (\<lambda>k. Date k 7 4) [sy + 1..ey])"
    using irule_monthday[of 7 4 n sy 8] n0 y s by (simp add: rule_defs)
  show "mlk_day (Date sy 8 1) None (Some n)
           = Inr (map (\<lambda>k. nth_weekday_date k 1 0 3) [sy + 1..ey])"
    using irule_nth_weekday[of 1 3 n sy 0 8] n0 y s by (simp add: rule_defs)
  show "memorial_day (Date sy 8 1) None (Some n)
           = Inr (map (\<lambda>k. nth_weekday_date k 3 0 (- 1)) [sy + 1..ey])"
    using irule_nth_weekday[of 3 "- 1" n sy 0 8] n0 y s by (simp add: rule_defs)
qed

lemma date_new_aug1: "1 \<le> y \<Longrightarrow> y \<le> 9999 \<Longrightarrow> date_new y 8 1 = Inr (Date y 8 1)"
  by (simp add: date_new_def MINYEAR_def MAXYEAR_def days_in_month_def DAYS_IN_MONTH_def)

lemma date_new_aug1_Inl:
  "\<not> (1 \<le> y \<and> y \<le> 9999) \<Longrightarrow> date_new y 8 1 = Inl (ValueError ''year must be in 1..9999'')"
  by (simp add: date_new_def MINYEAR_def MAXYEAR_def)

lemma init_ok:
  assumes sy: "1 \<le> sy" "sy \<le> 9999"
    and ey: "1 \<le> end_year_of now eyo" "end_year_of now eyo \<le> 9999"
  shows "\<exists>cal. init now sy eyo = Inr cal
           \<and> years cal = [sy..end_year_of now eyo - 1]
           \<and> dates cal = (\<lambda>k. if sy \<le> k \<and> k < end_year_of now eyo
                                then Some (stored_dates k) else None)
           \<and> min_date cal = Date sy 8 1 \<and> max_date cal = Date (end_year_of now eyo) 8 1"
proof -
  define e where "e = end_year_of now eyo"
  define n where "n = int (length [sy..e - 1])"
  note r = rules_from_august[OF sy(2) ey(2)[folded e_def] n_def]
  have e': "(case eyo of None \<Rightarrow> now + 2 | Some e \<Rightarrow> e) = e"
    by (simp add: e_def end_year_of_def)
  have loop: "year_loop [sy..e - 1] its Map.empty
         = Inr (\<lambda>k. if sy \<le> k \<and> k < e then Some (stored_dates k) else None)"
    if "it_fall_start its = map (\<lambda>k. nth_weekday_date k 8 0 (- 2)) [sy..e - 1]"
      "it_fall_break_start its = map (\<lambda>k. nth_weekday_date k 10 0 (- 2)) [sy..e - 1]"
      "it_thanksgiving its = map (\<lambda>k. nth_weekday_date k 11 3 4) [sy..e - 1]"
      "it_labor_day its = map (\<lambda>k. nth_weekday_date k 9 0 1) [sy..e - 1]"
      "it_spring_withdraw its = map (\<lambda>k. nth_weekday_date k 3 0 3) [sy + 1..e]"
      "it_independence_day its = map (\<lambda>k. Date k 7 4) [sy + 1..e]" for its
    using year_loop_ok[OF sy(1) ey(2)[folded e_def] that, of Map.empty] by simp
  have loop': "year_loop [sy..e - 1]
      \<lparr>it_thanksgiving = map (\<lambda>k. nth_weekday_date k 11 3 4) [sy..e - 1],
       it_labor_day = map (\<lambda>k. nth_weekday_date k 9 0 1) [sy..e - 1],
       it_mlk_day = map (\<lambda>k. nth_weekday_date k 1 0 3) [sy + 1..e],
       it_memorial_day = map (\<lambda>k. nth_weekday_date k 3 0 (- 1)) [sy + 1..e],
       it_independence_day = map (\<lambda>k. Date k 7 4) [sy + 1..e],
       it_fall_start = map (\<lambda>k. nth_weekday_date k 8 0 (- 2)) [sy..e - 1],
       it_fall_break_start = map (\<lambda>k. nth_weekday_date k 10 0 (- 2)) [sy..e - 1],
       it_spring_withdraw = map (\<lambda>k. nth_weekday_date k 3 0 3) [sy + 1..e]\<rparr> Map.empty
     = Inr (\<lambda>k. if sy \<le> k \<and> k < e then Some (stored_dates k) else None)"
    by (rule loop) simp_all
  show ?thesis
    unfolding e_def[symmetric]
    by (simp add: init_def Let_def e' rbind_def date_new_aug1 sy ey[folded e_def]
          n_def[symmetric] r loop' del: length_upto)
qed

lemma init_Inr:
  assumes "init now sy eyo = Inr cal"
  shows "1 \<le> sy \<and> sy \<le> 9999 \<and> 1 \<le> end_year_of now eyo \<and> end_year_of now eyo \<le> 9999
     \<and> years cal = [sy..end_year_of now eyo - 1]
     \<and> dates cal = (\<lambda>k. if sy \<le> k \<and> k < end_year_of now eyo
                          then Some (stored_dates k) else None)"
proof -
  have sy: "1 \<le> sy \<and> sy \<le> 9999"
  proof (rule ccontr)
    assume "\<not> (1 \<le> sy \<and> sy \<le> 9999)"
    then have "init now sy eyo = Inl (ValueError ''year must be in 1..9999'')"
      by (simp add: init_def Let_def rbind_def date_new_aug1_Inl)
    with assms show False by simp
  qed
  have e': "(case eyo of None \<Rightarrow> now + 2 | Some e \<Rightarrow> e) = end_year_of now eyo"
    by (simp add: end_year_of_def)
  have ey: "1 \<le> end_year_of now eyo \<and> end_year_of now eyo \<le> 9999"
  proof (rule ccontr)
    assume "\<not> (1 \<le> end_year_of now eyo \<and> end_year_of now eyo \<le> 9999)"
    then have "init now sy eyo = Inl (ValueError ''year must be in 1..9999'')"
      using sy by (simp add: init_def Let_def rbind_def date_new_aug1 e' date_new_aug1_Inl)
    with assms show False by simp
  qed
  from init_ok[of sy now eyo] sy ey assms show ?thesis by auto
qed

lemma stored_terms:
  "stored_dates y ''Fall Term Start'' = Some (nth_weekday_date y 8 0 (- 2))"
  "stored_dates y ''Fall Classes Start'' = Some (nth_weekday_date y 8 0 (- 2))"
  "stored_dates y ''Classes Start'' = None"
  "stored_dates y ''Fall Term End''
     = Some (fromordinal (toordinal (nth_weekday_date y 8 0 (- 2)) + 116))"
  "stored_dates y ''Spring Term Start''
     = Some (fromordinal (toordinal (nth_weekday_date y 8 0 (- 2)) + 140))"
  "stored_dates y ''Spring Term End''
     = Some (fromordinal (toordinal (nth_weekday_date y 8 0 (- 2)) + 256))"
  "stored_dates y ''Spring Break Start''
     = Some (fromordinal (toordinal (nth_weekday_date y 8 0 (- 2))
                          + (if y = 2013 then 203 else 196)))"
  "stored_dates y ''Summer Term Start''
     = Some (fromordinal (toordinal (nth_weekday_date y 8 0 (- 2)) + 266))"
  "stored_dates y ''Summer Term End''
     = Some (fromordinal (toordinal (nth_weekday_date y 8 0 (- 2)) + 208))"
  "stored_dates y ''Independenc Day'' = Some (Date (y + 1) 7 4)"
  "stored_dates y ''Independence Day'' = None"
  by (simp_all add: stored_dates_def year_map_def Let_def)

lemma dates_in_range:
  assumes "init now sy eyo = Inr cal" "y \<in> set (years cal)"
  shows "dates cal y = Some (stored_dates y)"
  using init_Inr[OF assms(1)] assms(2) by auto

section \<open>Later ordinals are later dates\<close>

lemma dby_Suc: "days_before_year (y + 1) = days_before_year y + (if is_leap y then 366 else 365)"
proof -
  obtain a b c d :: int where y: "y = 400 * a + 100 * b + 4 * c + d + 1"
    and bd: "0 \<le> b" "b \<le> 3" "0 \<le> c" "c \<le> 24" "0 \<le> d" "d \<le> 3"
    by (rule year_decomp)
  have dby: "days_before_year y = 146097 * a + 36524 * b + 1461 * c + 365 * d"
    unfolding y using bd by (rule dby_decomp)
  have lp: "is_leap y = (d = 3 \<and> (c \<noteq> 24 \<or> b = 3))"
    unfolding y using bd by (rule is_leap_decomp)
  consider "d \<le> 2" | "d = 3" "c \<le> 23" | "d = 3" "c = 24" "b \<le> 2" | "d = 3" "c = 24" "b = 3"
    using bd by atomize_elim linarith
  then show ?thesis
  proof cases
    case 1
    have "y + 1 = 400 * a + 100 * b + 4 * c + (d + 1) + 1" using y by simp
    moreover have "days_before_year (400 * a + 100 * b + 4 * c + (d + 1) + 1)
        = 146097 * a + 36524 * b + 1461 * c + 365 * (d + 1)"
      by (rule dby_decomp) (use bd 1 in simp_all)
    ultimately show ?thesis using dby lp 1 by simp
  next
    case 2
    have "y + 1 = 400 * a + 100 * b + 4 * (c + 1) + 0 + 1" using y 2 by simp
    moreover have "days_before_year (400 * a + 100 * b + 4 * (c + 1) + 0 + 1)
        = 146097 * a + 36524 * b + 1461 * (c + 1) + 365 * 0"
      by (rule dby_decomp) (use bd 2 in simp_all)
    ultimately show ?thesis using dby lp 2 by simp
  next
    case 3
    have "y + 1 = 400 * a + 100 * (b + 1) + 4 * 0 + 0 + 1" using y 3 by simp
    moreover have "days_before_year (400 * a + 100 * (b + 1) + 4 * 0 + 0 + 1)
        = 146097 * a + 36524 * (b + 1) + 1461 * 0 + 365 * 0"
      by (rule dby_decomp) (use bd 3 in simp_all)
    ultimately show ?thesis using dby lp 3 by simp
  next
    case 4
    have "y + 1 = 400 * (a + 1) + 100 * 0 + 4 * 0 + 0 + 1" using y 4 by simp
    moreover have "days_before_year (400 * (a + 1) + 100 * 0 + 4 * 0 + 0 + 1)
        = 146097 * (a + 1) + 36524 * 0 + 1461 * 0 + 365 * 0"
      by (rule dby_decomp) simp_all
    ultimately show ?thesis using dby lp 4 by simp
  qed
qed

lemma dby_mono_aux: "days_before_year y + 365 * int k \<le> days_before_year (y + int k)"
proof (induction k)
  case 0
  then show ?case by simp
next
  case (Suc k)
  have "y + int (Suc k) = (y + int k) + 1" by simp
  then have "days_before_year (y + int (Suc k)) = days_before_year ((y + int k) + 1)"
    by (rule arg_cong)
  also have "\<dots> \<ge> days_before_year (y + int k) + 365"
    unfolding dby_Suc by simp
  finally show ?case using Suc by simp
qed

lemma dby_less:
  assumes "y < y'"
  shows "days_before_year y + (if is_leap y then 366 else 365) \<le> days_before_year y'"
proof -
  define k where "k = nat (y' - (y + 1))"
  have y': "y' = (y + 1) + int k" using assms by (simp add: k_def)
  have "days_before_year (y + 1) + 365 * int k \<le> days_before_year y'"
    unfolding y' by (rule dby_mono_aux)
  then show ?thesis unfolding dby_Suc by simp
qed

lemma ordinal_decomp:
  obtains yr i where "ord2ymd n = (yr, month_day (is_leap yr) i)"
    "n = days_before_year yr + i + 1" "0 \<le> i" "i < (if is_leap yr then 366 else 365)"
proof -
  obtain yr m d where o: "ord2ymd n = (yr, m, d)" by (cases "ord2ymd n") auto
  from ymd2ord_ord2ymd[of n] o
  have v: "ymd2ord yr m d = n" "1 \<le> m" "m \<le> 12" "1 \<le> d" "d \<le> days_in_month yr m"
    by simp_all
  define i where "i = days_before_month yr m + d - 1"
  have n: "n = days_before_year yr + i + 1" using v(1) by (simp add: ymd2ord_def i_def)
  have f: "days_before_month yr m = mrange_of (is_leap yr) ! nat (m - 1)"
    using v(2,3) by (rule days_before_month_mrange)
  have dim: "days_in_month yr m
             = mrange_of (is_leap yr) ! nat m - mrange_of (is_leap yr) ! nat (m - 1)"
    using month_cases[OF v(2,3)]
    by (elim disjE)
       (simp_all add: days_in_month_def DAYS_IN_MONTH_def mrange_of_def M366RANGE_def
          M365RANGE_def)
  have i0: "0 \<le> i" unfolding i_def f using mrange_nonneg(1)[OF v(2,3), of "is_leap yr"] v(4)
    by simp
  have i1: "i < (if is_leap yr then 366 else 365)"
    using mrange_nonneg(3)[OF v(2,3), of "is_leap yr"] v(5) unfolding i_def f dim by simp
  have "ord2ymd (days_before_year yr + i + 1) = (yr, month_day (is_leap yr) i)"
    using i0 i1 by (rule ord2ymd_yday)
  then have "ord2ymd n = (yr, month_day (is_leap yr) i)" unfolding n .
  then show ?thesis using n i0 i1 that by blast
qed

lemma mrange_mono:
  assumes "1 \<le> a" "a < b" "b \<le> 12"
  shows "mrange_of lp ! nat a \<le> mrange_of lp ! nat (b - 1)"
proof -
  have a: "1 \<le> a" "a \<le> 12" and b: "1 \<le> b" "b \<le> 12" using assms by simp_all
  show ?thesis
    using month_cases[OF a] month_cases[OF b] assms(2)
    by (elim disjE; simp add: mrange_of_def M366RANGE_def M365RANGE_def)
qed

lemma month_day_mono:
  assumes "0 \<le> i" "i < j" "j < (if lp then 366 else 365)"
    and "month_day lp i = (m, d)" "month_day lp j = (m', d')"
  shows "m < m' \<or> (m = m' \<and> d < d')"
proof -
  have i: "i < (if lp then 366 else 365)" and j: "0 \<le> j" using assms(1-3) by simp_all
  note ri = month_day_range[OF assms(1) i assms(4)]
  note rj = month_day_range[OF j assms(3) assms(5)]
  show ?thesis
  proof (cases "m' < m")
    case True
    have "mrange_of lp ! nat m' \<le> mrange_of lp ! nat (m - 1)"
      by (rule mrange_mono) (use ri rj True in simp_all)
    then have False using ri rj assms(2) by simp
    then show ?thesis ..
  next
    case False
    then show ?thesis using ri rj assms(2) by (cases "m = m'") auto
  qed
qed

lemma fromordinal_mono:
  assumes "x < y"
  shows "date_less (fromordinal x) (fromordinal y)"
proof -
  obtain yx ix where x: "ord2ymd x = (yx, month_day (is_leap yx) ix)"
    "x = days_before_year yx + ix + 1" "0 \<le> ix" "ix < (if is_leap yx then 366 else 365)"
    by (rule ordinal_decomp)
  obtain yy iy where y: "ord2ymd y = (yy, month_day (is_leap yy) iy)"
    "y = days_before_year yy + iy + 1" "0 \<le> iy" "iy < (if is_leap yy then 366 else 365)"
    by (rule ordinal_decomp)
  obtain mx dx where mdx: "month_day (is_leap yx) ix = (mx, dx)" by force
  obtain my dy where mdy: "month_day (is_leap yy) iy = (my, dy)" by force
  have fx: "fromordinal x = Date yx mx dx" by (simp add: fromordinal_def x(1) mdx)
  have fy: "fromordinal y = Date yy my dy" by (simp add: fromordinal_def y(1) mdy)
  have nlt: "\<not> yy < yx"
  proof
    assume "yy < yx"
    from dby_less[OF this] have "days_before_year yy + iy + 1 \<le> days_before_year yx"
      using y(4) by (simp split: if_splits)
    then show False using assms x(2,3) y(2) by simp
  qed
  show ?thesis
  proof (cases "yx < yy")
    case True
    then show ?thesis by (simp add: date_less_def fx fy)
  next
    case False
    then have e: "yx = yy" using nlt by simp
    have "ix < iy" using assms x(2) y(2) e by simp
    from month_day_mono[OF x(3) this y(4) mdx[unfolded e] mdy]
    show ?thesis by (simp add: date_less_def fx fy e)
  qed
qed

section \<open>The claims about the stored dates\<close>

text \<open>
  Claim C5. In every calendar the constructor returns, for every academic year of its
  range, the stored fall and spring terms each end 116 days after they start.
\<close>

theorem term_length_116:
  assumes "init now sy eyo = Inr cal" "y \<in> set (years cal)"
  shows "\<exists>m fs fe ss se. dates cal y = Some m
      \<and> m ''Fall Term Start'' = Some fs \<and> m ''Fall Term End'' = Some fe
      \<and> date_sub fe fs = timedelta 116 0
      \<and> m ''Spring Term Start'' = Some ss \<and> m ''Spring Term End'' = Some se
      \<and> date_sub se ss = timedelta 116 0"
  using dates_in_range[OF assms]
  by (simp add: stored_terms date_sub_def timedelta_def toordinal_fromordinal)

theorem term_length_116_witness:
  "\<exists>cal m fs fe ss se. init 2026 2012 (Some 2015) = Inr cal \<and> 2013 \<in> set (years cal)
      \<and> dates cal 2013 = Some m
      \<and> m ''Fall Term Start'' = Some fs \<and> m ''Fall Term End'' = Some fe
      \<and> date_sub fe fs = 116
      \<and> m ''Spring Term Start'' = Some ss \<and> m ''Spring Term End'' = Some se
      \<and> date_sub se ss = 116"
proof -
  obtain cal where c: "init 2026 2012 (Some 2015) = Inr cal" "years cal = [2012..2015 - 1]"
    using init_ok[of 2012 2026 "Some 2015"] by (auto simp add: end_year_of_def)
  have y: "2013 \<in> set (years cal)" unfolding c(2) by simp
  from term_length_116[OF c(1) y] c(1) y show ?thesis
    by (simp add: timedelta_def)
qed

text \<open>
  Claim C6. The stored spring break starts 9 weeks after the spring term start in academic
  year 2013 and 8 weeks after it in every other year of the range.
\<close>

theorem spring_break_offset:
  assumes "init now sy eyo = Inr cal" "y \<in> set (years cal)"
  shows "\<exists>m ss sb. dates cal y = Some m
      \<and> m ''Spring Term Start'' = Some ss \<and> m ''Spring Break Start'' = Some sb
      \<and> date_sub sb ss = timedelta 0 (if y = 2013 then 9 else 8)"
  using dates_in_range[OF assms]
  by (simp add: stored_terms date_sub_def timedelta_def toordinal_fromordinal)

theorem spring_break_offset_witness:
  "\<exists>cal m ss sb m' ss' sb'. init 2026 2012 (Some 2015) = Inr cal
      \<and> dates cal 2013 = Some m
      \<and> m ''Spring Term Start'' = Some ss \<and> m ''Spring Break Start'' = Some sb
      \<and> date_sub sb ss = 63
      \<and> dates cal 2014 = Some m'
      \<and> m' ''Spring Term Start'' = Some ss' \<and> m' ''Spring Break Start'' = Some sb'
      \<and> date_sub sb' ss' = 56"
proof -
  obtain cal where c: "init 2026 2012 (Some 2015) = Inr cal" "years cal = [2012..2015 - 1]"
    using init_ok[of 2012 2026 "Some 2015"] by (auto simp add: end_year_of_def)
  have y: "2013 \<in> set (years cal)" "2014 \<in> set (years cal)" unfolding c(2) by simp_all
  from spring_break_offset[OF c(1) y(1)] spring_break_offset[OF c(1) y(2)] c(1) show ?thesis
    by (simp add: timedelta_def)
qed

text \<open>
  Claim C10. The stored summer term end is strictly earlier than the stored summer term
  start, by 58 days: the end is the spring start plus 68 days, the start is the spring end
  plus 10 days, that is the spring start plus 126 days.
\<close>

theorem summer_end_before_start:
  assumes "init now sy eyo = Inr cal" "y \<in> set (years cal)"
  shows "\<exists>m ss se su sue. dates cal y = Some m
      \<and> m ''Spring Term Start'' = Some ss \<and> m ''Spring Term End'' = Some se
      \<and> m ''Summer Term Start'' = Some su \<and> m ''Summer Term End'' = Some sue
      \<and> date_sub sue ss = 68 \<and> date_sub su se = 10 \<and> date_sub su ss = 126
      \<and> date_sub sue su = - 58 \<and> date_less sue su"
  using dates_in_range[OF assms]
  by (simp add: stored_terms date_sub_def toordinal_fromordinal fromordinal_mono)

theorem summer_end_before_start_witness:
  "\<exists>cal m su sue. init 2026 2012 (Some 2015) = Inr cal \<and> dates cal 2012 = Some m
      \<and> m ''Summer Term Start'' = Some su \<and> m ''Summer Term End'' = Some sue
      \<and> date_sub sue su = - 58 \<and> date_less sue su"
proof -
  obtain cal where c: "init 2026 2012 (Some 2015) = Inr cal" "years cal = [2012..2015 - 1]"
    using init_ok[of 2012 2026 "Some 2015"] by (auto simp add: end_year_of_def)
  have y: "2012 \<in> set (years cal)" unfolding c(2) by simp
  from summer_end_before_start[OF c(1) y] c(1) show ?thesis by auto
qed

lemma date_in_term_stored:
  assumes "init now sy eyo = Inr cal" "y \<in> set (years cal)" "s \<in> {10, 20, 30}"
  shows "date_in_term cal (y * 100 + s) field
         = (case stored_dates y field of None \<Rightarrow> Inl KeyError | Some d \<Rightarrow> Inr d)"
proof -
  have "py_round_hundreds (y * 100 + s) div 100 = y"
    by (rule py_round_hundreds_term) (use assms(3) in auto)
  then show ?thesis using dates_in_range[OF assms(1,2)] by (simp add: date_in_term_def)
qed

text \<open>
  Claim C9. For every academic year of the range the mapping holds 4 July of the following
  calendar year under the key \<open>Independenc Day\<close> and has no key \<open>Independence Day\<close>, so
  \<open>date_in_term\<close> fails with \<open>KeyError\<close> on the correct spelling and succeeds on the
  misspelt one, for each of the three term codes of the year.
\<close>

theorem independence_day_key:
  assumes "init now sy eyo = Inr cal" "y \<in> set (years cal)" "s \<in> {10, 20, 30}"
  shows "\<exists>m. dates cal y = Some m
      \<and> m ''Independenc Day'' = Some (Date (y + 1) 7 4)
      \<and> m ''Independence Day'' = None
      \<and> date_in_term cal (y * 100 + s) ''Independence Day'' = Inl KeyError
      \<and> date_in_term cal (y * 100 + s) ''Independenc Day'' = Inr (Date (y + 1) 7 4)"
  using dates_in_range[OF assms(1,2)] date_in_term_stored[OF assms]
  by (simp add: stored_terms)

theorem independence_day_key_witness:
  "\<exists>cal. init 2026 2020 (Some 2022) = Inr cal
      \<and> date_in_term cal 202030 ''Independence Day'' = Inl KeyError
      \<and> date_in_term cal 202030 ''Independenc Day'' = Inr (Date 2021 7 4)"
proof -
  obtain cal where c: "init 2026 2020 (Some 2022) = Inr cal" "years cal = [2020..2022 - 1]"
    using init_ok[of 2020 2026 "Some 2022"] by (auto simp add: end_year_of_def)
  have y: "2020 \<in> set (years cal)" unfolding c(2) by simp
  from independence_day_key[OF c(1) y, of 30] c(1) show ?thesis by auto
qed

text \<open>
  Claim C2, as stated, fails: the mapping has no key \<open>Classes Start\<close> (the keys carry the
  semester name, \<open>Fall Classes Start\<close>), and \<open>date_in_term\<close> does not use the semester
  digits of the term code, so the lookup ends in \<open>KeyError\<close>.
\<close>

theorem date_in_term_classes_start_counterexample:
  "\<exists>cal. init 2026 2020 (Some 2022) = Inr cal \<and> 2020 \<in> set (years cal)
      \<and> date_in_term cal 202010 ''Classes Start'' = Inl KeyError"
proof -
  obtain cal where c: "init 2026 2020 (Some 2022) = Inr cal" "years cal = [2020..2022 - 1]"
    using init_ok[of 2020 2026 "Some 2022"] by (auto simp add: end_year_of_def)
  have y: "2020 \<in> set (years cal)" unfolding c(2) by simp
  from date_in_term_stored[OF c(1) y, of 10 "''Classes Start''"] c(1) y show ?thesis
    by (auto simp add: stored_terms)
qed

text \<open>
  Claim C2, amended. With the full key \<open>Fall Classes Start\<close> the lookup succeeds and
  returns the fall term start of academic year 2020, the second-to-last Monday of August
  2020 (24 August); in general \<open>date_in_term\<close> returns what the mapping of the year
  \<open>term div 100\<close> stores under the field, and \<open>KeyError\<close> when the field is absent.
\<close>

theorem date_in_term_fall_classes_start:
  assumes "init now sy eyo = Inr cal" "2020 \<in> set (years cal)"
  shows "date_in_term cal 202010 ''Fall Classes Start'' = Inr (Date 2020 8 24)
     \<and> date_in_term cal 202010 ''Fall Term Start'' = Inr (Date 2020 8 24)
     \<and> weekday (Date 2020 8 24) = 0
     \<and> (\<forall>y s field m. y \<in> set (years cal) \<and> s \<in> {10, 20, 30} \<and> dates cal y = Some m
          \<longrightarrow> date_in_term cal (y * 100 + s) field
              = (case m field of None \<Rightarrow> Inl KeyError | Some d \<Rightarrow> Inr d))"
proof -
  have d: "nth_weekday_date 2020 8 0 (- 2) = Date 2020 8 24" by (simp add: date_eval)
  have w: "weekday (Date 2020 8 24) = 0" by (simp add: date_eval)
  have g: "date_in_term cal (y * 100 + s) field
              = (case m field of None \<Rightarrow> Inl KeyError | Some d \<Rightarrow> Inr d)"
    if "y \<in> set (years cal)" "s \<in> {10, 20, 30}" "dates cal y = Some m" for y s field m
    using date_in_term_stored[OF assms(1) that(1,2), of field]
      dates_in_range[OF assms(1) that(1)] that(3) by simp
  show ?thesis
    using date_in_term_stored[OF assms, of 10] g by (simp add: stored_terms d w)
qed

theorem date_in_term_fall_classes_start_witness:
  "\<exists>cal. init 2026 2020 (Some 2022) = Inr cal \<and> 2020 \<in> set (years cal)
      \<and> date_in_term cal 202010 ''Fall Classes Start'' = Inr (Date 2020 8 24)"
proof -
  obtain cal where c: "init 2026 2020 (Some 2022) = Inr cal" "years cal = [2020..2022 - 1]"
    using init_ok[of 2020 2026 "Some 2022"] by (auto simp add: end_year_of_def)
  have y: "2020 \<in> set (years cal)" unfolding c(2) by simp
  from date_in_term_fall_classes_start[OF c(1) y] c(1) y show ?thesis by auto
qed

end
